theory Spec2Isabelle
  imports Complex_Main "HOL-Library.Log_Nat" "HOL-Library.Sublist"
begin

section \<open>Set packing as an Ising Hamiltonian: the module \<open>setpacking.py\<close>\<close>

text \<open>
  The module is a handful of plain functions. Python's unbounded integers are \<open>int\<close>
  (or \<open>nat\<close> for loop indices, lengths and counts), a numpy array of float64 is a list
  of the real numbers its entries denote (every value the module itself stores in such
  an array is \<open>0\<close>, \<open>1\<close>, \<open>2.5\<close> or \<open>-0.5\<close> or a sum of a few of these, all exact in
  float64), and every exception the code can raise is a value of \<open>error\<close>. Where a
  float64 can be infinite or not-a-number (a quotient by zero, a parsed line), the type
  \<open>npfloat\<close> below carries these values next to the finite ones.
\<close>

datatype error = IndexError | ValueError | AssertionError | OverflowError | FileNotFoundError

subsection \<open>Float64 values\<close>

text \<open>
  A float64 value: a finite number, an infinity or not-a-number. \<open>float64_of_int z\<close> is
  the float64 nearest to the integer \<open>z\<close>: \<open>z\<close> itself up to \<open>2\<^sup>5\<^sup>3\<close>, beyond that \<open>z\<close>
  rounded to 53 significant bits, a tie going to the even significand, and an infinity
  from \<open>2\<^sup>1\<^sup>0\<^sup>2\<^sup>4\<close> on. Converting a Python integer to a float (\<^verbatim>\<open>float(total)\<close>, storing
  an integer into a float64 array) gives that float64 and raises \<open>OverflowError\<close> where
  it would be infinite.
\<close>

datatype npfloat = Fin real | PosInf | NegInf | NaN

definition float64_of_int :: "int \<Rightarrow> npfloat" where
  "float64_of_int z =
     (let a = \<bar>z\<bar> in
      if a \<le> 2 ^ 53 then Fin (of_int z)
      else (let e = nat (bitlen a - 53);
                q = a div 2 ^ e;
                r = a mod 2 ^ e;
                half = 2 ^ (e - 1);
                q' = (if half < r \<or> (r = half \<and> odd q) then q + 1 else q);
                v = q' * 2 ^ e
            in if 2 ^ 1024 \<le> v then (if z < 0 then NegInf else PosInf)
               else Fin (of_int (sgn z * v))))"

definition float_of_python_int :: "int \<Rightarrow> error + real" where
  "float_of_python_int z =
     (case float64_of_int z of Fin r \<Rightarrow> Inr r | _ \<Rightarrow> Inl OverflowError)"

subsection \<open>\<open>get_solution\<close>\<close>

text \<open>\<^verbatim>\<open>return 1 - x\<close>: numpy broadcasts the scalar over the array.\<close>

definition get_solution :: "real list \<Rightarrow> real list" where
  "get_solution x = map (\<lambda>xi. 1 - xi) x"

text \<open>A binary vector has entries \<open>0\<close> and \<open>1\<close> only.\<close>

definition binary_vector :: "real list \<Rightarrow> bool" where
  "binary_vector x = list_all (\<lambda>xi. xi = 0 \<or> xi = 1) x"

subsection \<open>\<open>check_disjoint\<close>\<close>

text \<open>
  A subset is a Python list of hashable elements; \<^verbatim>\<open>set(L) & set(R)\<close> is truthy when the
  two sets share an element.
\<close>

definition intersects :: "'a list \<Rightarrow> 'a list \<Rightarrow> bool" where
  "intersects L R = (set L \<inter> set R \<noteq> {})"

text \<open>
  The first loop, \<^verbatim>\<open>for i in range(n): if sol[i] == 1: selected_subsets.append(...)\<close>.
  Reading \<^verbatim>\<open>sol[i]\<close> past the end of \<open>sol\<close> raises \<open>IndexError\<close>; \<open>i\<close> is always below
  \<open>len(list_of_subsets)\<close>.
\<close>

fun select_subsets ::
  "real list \<Rightarrow> 'a list list \<Rightarrow> nat list \<Rightarrow> 'a list list \<Rightarrow> error + 'a list list" where
  "select_subsets sol list_of_subsets [] selected_subsets = Inr selected_subsets"
| "select_subsets sol list_of_subsets (i # is) selected_subsets =
     (if length sol \<le> i then Inl IndexError
      else select_subsets sol list_of_subsets is
             (if sol ! i = 1 then selected_subsets @ [list_of_subsets ! i]
              else selected_subsets))"

text \<open>
  The nested loop over \<^verbatim>\<open>range(tmplen)\<close> and \<^verbatim>\<open>range(i)\<close>, which returns at the first
  overlapping pair.
\<close>

definition overlap_found :: "'a list list \<Rightarrow> bool" where
  "overlap_found selected_subsets =
     list_ex (\<lambda>i. list_ex (\<lambda>j. intersects (selected_subsets ! i) (selected_subsets ! j)) [0..<i])
       [0..<length selected_subsets]"

definition check_disjoint :: "real list \<Rightarrow> 'a list list \<Rightarrow> error + bool" where
  "check_disjoint sol list_of_subsets =
     (case select_subsets sol list_of_subsets [0..<length list_of_subsets] [] of
        Inl e \<Rightarrow> Inl e
      | Inr selected_subsets \<Rightarrow>
          Inr (if overlap_found selected_subsets then False else True))"

subsection \<open>\<open>get_setpacking_qubitops\<close>\<close>

text \<open>
  \<^verbatim>\<open>Pauli(v, w)\<close> is the constructor of the Pauli class of the circuit library: a Pauli
  term is its pair of vectors (\<open>v\<close> marks the qubits carrying a \<open>Z\<close>, \<open>w\<close> those carrying
  an \<open>X\<close>). A weighted term \<^verbatim>\<open>[coefficient, pauli]\<close> is a pair.
\<close>

datatype pauli = Pauli (pauli_v: "real list") (pauli_w: "real list")

text \<open>
  Modelled from the spec: the class \<open>Operator\<close> of \<open>qiskit_aqua\<close>, whose source is not
  among the files of the module. The specification gives it as the capability to
  construct an operator from an ordered list of weighted Pauli terms. \<open>paulis op\<close> is
  the list of terms the operator holds.
\<close>

datatype operator = Stored_paulis (paulis: "(real \<times> pauli) list")

text \<open>
  Modelled from the spec: the constructor \<^verbatim>\<open>Operator(paulis=...)\<close>. It keeps the list
  after one pass over it (\<open>_simplify_paulis\<close>): a term whose Pauli (its label, which for
  vectors of zeros and ones is the pair of vectors) has occurred before is not
  appended; its coefficient is added to the coefficient of the first occurrence, and
  the terms stay in the order of their first occurrences. \<open>add_pauli\<close> is one step of
  the pass, on the list \<open>new_paulis\<close> built so far.
\<close>

fun add_pauli :: "real \<times> pauli \<Rightarrow> (real \<times> pauli) list \<Rightarrow> (real \<times> pauli) list" where
  "add_pauli curr_paulis [] = [curr_paulis]"
| "add_pauli curr_paulis (p # new_paulis) =
     (if snd p = snd curr_paulis then (fst p + fst curr_paulis, snd p) # new_paulis
      else p # add_pauli curr_paulis new_paulis)"

definition simplify_paulis :: "(real \<times> pauli) list \<Rightarrow> (real \<times> pauli) list" where
  "simplify_paulis paulis_given = fold add_pauli paulis_given []"

definition Operator :: "(real \<times> pauli) list \<Rightarrow> operator" where
  "Operator paulis_given = Stored_paulis (simplify_paulis paulis_given)"

definition np_zeros :: "nat \<Rightarrow> real list" where
  "np_zeros n = replicate n 0"

text \<open>
  The body of the nested loop, lines 76 to 91, as a step on the pair
  \<open>(pauli_list, shift)\<close>; \<open>A\<close> is the local constant of the function.
\<close>

definition constraint_step ::
  "real \<Rightarrow> 'a list list \<Rightarrow> nat \<Rightarrow> nat \<Rightarrow> nat \<Rightarrow> (real \<times> pauli) list \<times> real
     \<Rightarrow> (real \<times> pauli) list \<times> real" where
  "constraint_step A list_of_subsets n i j st =
     (case st of (pauli_list, shift) \<Rightarrow>
        if intersects (list_of_subsets ! i) (list_of_subsets ! j) then
          (let wp = np_zeros n;
               vp = (np_zeros n)[i := 1, j := 1];
               vp2 = (np_zeros n)[i := 1];
               vp3 = (np_zeros n)[j := 1]
           in (pauli_list @ [(A * 0.25, Pauli vp wp)] @ [(A * 0.25, Pauli vp2 wp)]
                 @ [(A * 0.25, Pauli vp3 wp)],
               shift + A * 0.25))
        else (pauli_list, shift))"

text \<open>\<^verbatim>\<open>for i in range(n): for j in range(i): ...\<close>\<close>

definition constraint_loop ::
  "real \<Rightarrow> 'a list list \<Rightarrow> nat \<Rightarrow> (real \<times> pauli) list \<times> real \<Rightarrow> (real \<times> pauli) list \<times> real" where
  "constraint_loop A list_of_subsets n st =
     fold (\<lambda>i. fold (constraint_step A list_of_subsets n i) [0..<i]) [0..<n] st"

text \<open>The second loop, lines 93 to 98, and its body.\<close>

definition objective_step ::
  "nat \<Rightarrow> nat \<Rightarrow> (real \<times> pauli) list \<times> real \<Rightarrow> (real \<times> pauli) list \<times> real" where
  "objective_step n i st =
     (case st of (pauli_list, shift) \<Rightarrow>
        (let wp = np_zeros n;
             vp = (np_zeros n)[i := 1]
         in (pauli_list @ [(- 0.5, Pauli vp wp)], shift + (- 0.5))))"

definition objective_loop ::
  "nat \<Rightarrow> (real \<times> pauli) list \<times> real \<Rightarrow> (real \<times> pauli) list \<times> real" where
  "objective_loop n st = fold (objective_step n) [0..<n] st"

definition get_setpacking_qubitops :: "'a list list \<Rightarrow> operator \<times> real" where
  "get_setpacking_qubitops list_of_subsets =
     (let shift = 0;
          pauli_list = [];
          A = 10;
          n = length list_of_subsets
      in case objective_loop n (constraint_loop A list_of_subsets n (pauli_list, shift)) of
           (pauli_list, shift) \<Rightarrow> (Operator pauli_list, shift))"

text \<open>
  The terms as the specification names them: \<open>Z_term n i\<close> is the single-qubit term
  \<open>Z\<^sub>i\<close> on \<open>n\<close> qubits, \<open>ZZ_term n i j\<close> the two-qubit term \<open>Z\<^sub>iZ\<^sub>j\<close>; \<open>pair_order n\<close> lists
  the pairs with the outer index \<open>i\<close> from \<open>0\<close> to \<open>n-1\<close> and the inner index \<open>j\<close> from \<open>0\<close>
  to \<open>i-1\<close>; \<open>pair_terms\<close> is what the specification says one pair contributes.
\<close>

definition Z_term :: "nat \<Rightarrow> nat \<Rightarrow> pauli" where
  "Z_term n i = Pauli (map (\<lambda>k. if k = i then 1 else 0) [0..<n]) (replicate n 0)"

definition ZZ_term :: "nat \<Rightarrow> nat \<Rightarrow> nat \<Rightarrow> pauli" where
  "ZZ_term n i j = Pauli (map (\<lambda>k. if k = i \<or> k = j then 1 else 0) [0..<n]) (replicate n 0)"

definition pair_order :: "nat \<Rightarrow> (nat \<times> nat) list" where
  "pair_order n = concat (map (\<lambda>i. map (\<lambda>j. (i, j)) [0..<i]) [0..<n])"

definition pair_terms :: "'a list list \<Rightarrow> nat \<times> nat \<Rightarrow> (real \<times> pauli) list" where
  "pair_terms ls ij =
     (case ij of (i, j) \<Rightarrow>
        if set (ls ! i) \<inter> set (ls ! j) \<noteq> {}
        then [(5 / 2, ZZ_term (length ls) i j), (5 / 2, Z_term (length ls) i), (5 / 2, Z_term (length ls) j)]
        else [])"

definition intersecting_pair :: "'a list list \<Rightarrow> nat \<times> nat \<Rightarrow> bool" where
  "intersecting_pair ls ij = (case ij of (i, j) \<Rightarrow> set (ls ! i) \<inter> set (ls ! j) \<noteq> {})"

subsection \<open>\<open>sample_most_likely\<close>\<close>

text \<open>
  The input is either a dense array or a \<^verbatim>\<open>dict\<close> from bit strings to counts, which are
  natural numbers. The entries of a dense array are of the array's own type \<open>'e\<close>
  (float64, complex128, ...); what \<^verbatim>\<open>np.abs\<close> computes for one entry, in float64, is
  the parameter \<open>absolute\<close> of \<open>sample_most_likely\<close> below.
\<close>

datatype 'e state_vector = Dense "'e list" | Counts "string \<Rightarrow> nat option"

text \<open>
  \<^verbatim>\<open>numpy.binary_repr(num, width)\<close> for \<open>num \<ge> 0\<close>, after numpy's own code:
  \<^verbatim>\<open>'0' * (width or 1)\<close> for zero, otherwise \<^verbatim>\<open>bin(num)[2:]\<close> filled with zeros on the left
  up to \<open>max(binwidth, width)\<close> characters.
\<close>

fun bin_digits :: "nat \<Rightarrow> string" where
  "bin_digits num =
     (if num < 2 then [if num = 0 then CHR ''0'' else CHR ''1'']
      else bin_digits (num div 2) @ [if num mod 2 = 0 then CHR ''0'' else CHR ''1''])"

declare bin_digits.simps [simp del]

definition binary_repr :: "nat \<Rightarrow> nat \<Rightarrow> string" where
  "binary_repr num width =
     (if num = 0 then replicate (if width = 0 then 1 else width) CHR ''0''
      else (let binary = bin_digits num;
                binwidth = length binary;
                outwidth = max binwidth width
            in replicate (outwidth - binwidth) CHR ''0'' @ binary))"

text \<open>\<^verbatim>\<open>state_vector.get(state, 0)\<close>\<close>

definition dict_get :: "('k \<Rightarrow> 'v option) \<Rightarrow> 'k \<Rightarrow> 'v \<Rightarrow> 'v" where
  "dict_get d k dflt = (case d k of None \<Rightarrow> dflt | Some v \<Rightarrow> v)"

text \<open>
  The loop over \<^verbatim>\<open>range(2**n)\<close> of lines 131 to 137, on the pair \<open>(temp_vec, total)\<close>.
  \<^verbatim>\<open>temp_vec[i] = count\<close> stores the count as a float64; \<open>total\<close> is a Python integer.
\<close>

definition counts_step ::
  "nat \<Rightarrow> (string \<Rightarrow> nat option) \<Rightarrow> nat \<Rightarrow> real list \<times> nat \<Rightarrow> error + real list \<times> nat" where
  "counts_step n state_vector i st =
     (case st of (temp_vec, tot) \<Rightarrow>
        (let state = binary_repr i n;
             count = dict_get state_vector state 0
         in case float_of_python_int (int count) of
              Inl e \<Rightarrow> Inl e
            | Inr c \<Rightarrow> Inr (temp_vec[i := c], tot + count)))"

fun counts_loop ::
  "nat \<Rightarrow> (string \<Rightarrow> nat option) \<Rightarrow> nat list \<Rightarrow> real list \<times> nat \<Rightarrow> error + real list \<times> nat" where
  "counts_loop n state_vector [] st = Inr st"
| "counts_loop n state_vector (i # is) st =
     (case counts_step n state_vector i st of
        Inl e \<Rightarrow> Inl e
      | Inr st' \<Rightarrow> counts_loop n state_vector is st')"

text \<open>
  \<^verbatim>\<open>temp_vec / float(total)\<close>: numpy divides entry by entry and follows IEEE 754, so a
  division by zero gives not-a-number for \<open>0/0\<close> and an infinity otherwise, with a warning
  and no exception. The quotient of two finite float64 by a divisor other than zero is
  the exact quotient rounded to float64; this operation is the parameter \<open>fdiv\<close>.
\<close>

definition np_divide :: "(real \<Rightarrow> real \<Rightarrow> npfloat) \<Rightarrow> real \<Rightarrow> real \<Rightarrow> npfloat" where
  "np_divide fdiv a b =
     (if b \<noteq> 0 then fdiv a b
      else if a = 0 then NaN
      else if 0 < a then PosInf else NegInf)"

definition normalized_counts ::
  "(real \<Rightarrow> real \<Rightarrow> npfloat) \<Rightarrow> nat \<Rightarrow> (string \<Rightarrow> nat option) \<Rightarrow> error + npfloat list" where
  "normalized_counts fdiv n state_vector =
     (case counts_loop n state_vector [0..<2 ^ n] (np_zeros (2 ^ n), 0) of
        Inl e \<Rightarrow> Inl e
      | Inr (temp_vec, tot) \<Rightarrow>
          (case float_of_python_int (int tot) of
             Inl e \<Rightarrow> Inl e
           | Inr t \<Rightarrow> Inr (map (\<lambda>c. np_divide fdiv c t) temp_vec)))"

text \<open>
  \<^verbatim>\<open>numpy.abs\<close> and \<^verbatim>\<open>numpy.argmax\<close>. The latter is numpy's loop: it keeps the first
  entry that is not below or equal to the current maximum, and stops at the first
  not-a-number, which counts as maximal; on an empty array it raises \<open>ValueError\<close>.
\<close>

fun np_abs :: "npfloat \<Rightarrow> npfloat" where
  "np_abs (Fin r) = Fin \<bar>r\<bar>"
| "np_abs PosInf = PosInf"
| "np_abs NegInf = PosInf"
| "np_abs NaN = NaN"

fun np_le :: "npfloat \<Rightarrow> npfloat \<Rightarrow> bool" where
  "np_le NaN _ = False"
| "np_le _ NaN = False"
| "np_le NegInf _ = True"
| "np_le _ PosInf = True"
| "np_le (Fin a) (Fin b) = (a \<le> b)"
| "np_le (Fin a) NegInf = False"
| "np_le PosInf (Fin b) = False"
| "np_le PosInf NegInf = False"

fun argmax_loop :: "npfloat list \<Rightarrow> nat \<Rightarrow> npfloat \<Rightarrow> nat \<Rightarrow> nat" where
  "argmax_loop [] i mp max_ind = max_ind"
| "argmax_loop (x # xs) i mp max_ind =
     (if mp = NaN then max_ind
      else if \<not> np_le x mp then argmax_loop xs (Suc i) x i
      else argmax_loop xs (Suc i) mp max_ind)"

definition np_argmax :: "npfloat list \<Rightarrow> error + nat" where
  "np_argmax a = (case a of [] \<Rightarrow> Inl ValueError | x # xs \<Rightarrow> Inr (argmax_loop xs 1 x 0))"

text \<open>Lines 141 to 144: \<^verbatim>\<open>x[i] = k % 2; k >>= 1\<close> for \<open>i\<close> in \<^verbatim>\<open>range(n)\<close>.\<close>

definition decode_step :: "nat \<Rightarrow> real list \<times> nat \<Rightarrow> real list \<times> nat" where
  "decode_step i st = (case st of (x, k) \<Rightarrow> (x[i := real (k mod 2)], k div 2))"

definition decode_loop :: "nat \<Rightarrow> nat \<Rightarrow> real list" where
  "decode_loop n k = fst (fold decode_step [0..<n] (np_zeros n, k))"

text \<open>
  The function: for a \<^verbatim>\<open>dict\<close> the state vector is replaced by the normalised counts;
  then \<^verbatim>\<open>k = np.argmax(np.abs(state_vector))\<close> and the bits of \<open>k\<close> are decoded.
\<close>

definition sample_most_likely ::
  "('e \<Rightarrow> npfloat) \<Rightarrow> (real \<Rightarrow> real \<Rightarrow> npfloat) \<Rightarrow> nat \<Rightarrow> 'e state_vector \<Rightarrow> error + real list" where
  "sample_most_likely absolute fdiv n state_vector =
     (case (case state_vector of
              Counts d \<Rightarrow>
                (case normalized_counts fdiv n d of
                   Inl e \<Rightarrow> Inl e
                 | Inr state_vector' \<Rightarrow> Inr (map np_abs state_vector'))
            | Dense a \<Rightarrow> Inr (map absolute a)) of
        Inl e \<Rightarrow> Inl e
      | Inr magnitudes \<Rightarrow>
          (case np_argmax magnitudes of
             Inl e \<Rightarrow> Inl e
           | Inr k \<Rightarrow> Inr (decode_loop n k)))"

subsection \<open>The number files: \<open>random_number_list\<close> and \<open>read_numbers_from_file\<close>\<close>

text \<open>
  A file system maps a path to the text of the file, as Python's text mode shows it
  (line ends are \<open>\n\<close>). \<^verbatim>\<open>'{}\n'.format(v)\<close> writes an integer as its decimal digits, with
  a minus sign when negative.
\<close>

type_synonym filesystem = "string \<Rightarrow> string option"

definition NL :: char where
  "NL = CHR ''\<newline>''"

definition digit_char :: "int \<Rightarrow> char" where
  "digit_char d = ''0123456789'' ! nat d"

function digits_of :: "int \<Rightarrow> string" where
  "digits_of m = (if m < 10 then [digit_char m] else digits_of (m div 10) @ [digit_char (m mod 10)])"
  by pat_completeness auto
termination
  by (relation "measure nat") auto

declare digits_of.simps [simp del]

definition format_int :: "int \<Rightarrow> string" where
  "format_int z = (if z < 0 then CHR ''-'' # digits_of (- z) else digits_of z)"

definition write_line :: "int list \<Rightarrow> nat \<Rightarrow> string \<Rightarrow> string" where
  "write_line number_list i outfile = outfile @ format_int (number_list ! i) @ [NL]"

text \<open>
  \<^verbatim>\<open>np.random.randint(low, high, size=n)\<close> with its default integer type, int64. A size
  of \<open>0\<close> gives the empty array before any argument is checked. Otherwise the call
  raises \<open>ValueError\<close> when \<open>low\<close> is below \<open>-2\<^sup>6\<^sup>3\<close>, when \<open>high\<close> is above \<open>2\<^sup>6\<^sup>3\<close>, when
  \<open>low \<ge> high\<close> and when the size is negative; else it returns \<open>n\<close> integers, each at
  least \<open>low\<close> and below \<open>high\<close>. The source of randomness is the parameter \<open>rng\<close>, an
  arbitrary stream of integers: entry \<open>i\<close> of the array is \<open>low + rng i mod (high - low)\<close>,
  so that every array with entries in range is the outcome of some stream. An array
  too large for the memory of the machine is outside the model.
\<close>

definition np_random_randint :: "(nat \<Rightarrow> int) \<Rightarrow> int \<Rightarrow> int \<Rightarrow> int \<Rightarrow> error + int list" where
  "np_random_randint rng low high n =
     (if n = 0 then Inr []
      else if low < - (2 ^ 63) then Inl ValueError
      else if 2 ^ 63 < high then Inl ValueError
      else if high \<le> low then Inl ValueError
      else if n < 0 then Inl ValueError
      else Inr (map (\<lambda>i. low + rng i mod (high - low)) [0..<nat n]))"

text \<open>
  The file is written only when \<open>savefile\<close> is truthy, that is neither \<open>None\<close> nor the
  empty string.
\<close>

definition random_number_list ::
  "(nat \<Rightarrow> int) \<Rightarrow> int \<Rightarrow> int \<Rightarrow> string option \<Rightarrow> filesystem \<Rightarrow> error + int list \<times> filesystem" where
  "random_number_list rng n weight_range savefile fs =
     (case np_random_randint rng 1 (weight_range + 1) n of
        Inl e \<Rightarrow> Inl e
      | Inr number_list \<Rightarrow>
          (case savefile of
             None \<Rightarrow> Inr (number_list, fs)
           | Some path \<Rightarrow>
               if path = [] then Inr (number_list, fs)
               else Inr (number_list,
                         fs(path \<mapsto> fold (write_line number_list) [0..<nat n] []))))"

text \<open>
  \<^verbatim>\<open>for line in infile\<close>: the lines of the text, each with its final \<open>\n\<close>; a last line
  without one is a line too.
\<close>

fun file_lines :: "string \<Rightarrow> string list" where
  "file_lines [] = []"
| "file_lines (c # cs) =
     (if c = NL then [c] # file_lines cs
      else (case file_lines cs of [] \<Rightarrow> [[c]] | l # ls \<Rightarrow> (c # l) # ls))"

text \<open>
  \<^verbatim>\<open>float(line)\<close>. Python strips white space, and reads an optional sign followed by
  decimal digits as that integer, rounded to the nearest float64 (ties to the even
  significand, an infinity beyond the largest float64). This part of its syntax is
  modelled here; on every other string (fractions, exponents, \<open>inf\<close>, \<open>nan\<close>, malformed
  text) \<open>py_float\<close> answers what its parameter \<open>other_syntax\<close> answers, so that the
  theorems hold whatever Python does there.
\<close>

definition is_space :: "char \<Rightarrow> bool" where
  "is_space c = (c \<in> set [CHR '' '', CHR 0x09, CHR 0x0A, CHR 0x0B, CHR 0x0C, CHR 0x0D])"

definition strip :: "string \<Rightarrow> string" where
  "strip s = rev (dropWhile is_space (rev (dropWhile is_space s)))"

definition digit_val :: "char \<Rightarrow> int option" where
  "digit_val c = map_of (zip ''0123456789'' [0, 1, 2, 3, 4, 5, 6, 7, 8, 9]) c"

definition nat_literal :: "string \<Rightarrow> int option" where
  "nat_literal s =
     (if s = [] \<or> \<not> list_all (\<lambda>c. digit_val c \<noteq> None) s then None
      else Some (foldl (\<lambda>acc c. 10 * acc + the (digit_val c)) 0 s))"

definition int_literal :: "string \<Rightarrow> int option" where
  "int_literal s =
     (case s of
        [] \<Rightarrow> None
      | c # cs \<Rightarrow>
          if c = CHR ''-'' then map_option uminus (nat_literal cs)
          else if c = CHR ''+'' then nat_literal cs
          else nat_literal s)"

definition py_float :: "(string \<Rightarrow> error + npfloat) \<Rightarrow> string \<Rightarrow> error + npfloat" where
  "py_float other_syntax s =
     (case int_literal (strip s) of
        Some z \<Rightarrow> Inr (float64_of_int z)
      | None \<Rightarrow> other_syntax s)"

text \<open>
  \<^verbatim>\<open>round(x)\<close> of a float is the nearest integer, a tie going to the even one; it raises
  \<open>OverflowError\<close> on an infinity and \<open>ValueError\<close> on not-a-number.
\<close>

definition round_half_even :: "real \<Rightarrow> int" where
  "round_half_even r =
     (let f = \<lfloor>r\<rfloor>; d = r - of_int f in
      if d < 1 / 2 then f
      else if 1 / 2 < d then f + 1
      else if even f then f else f + 1)"

fun py_round :: "npfloat \<Rightarrow> error + int" where
  "py_round (Fin r) = Inr (round_half_even r)"
| "py_round PosInf = Inl OverflowError"
| "py_round NegInf = Inl OverflowError"
| "py_round NaN = Inl ValueError"

text \<open>
  The loop of lines 114 to 116. \<^verbatim>\<open>float(line)\<close> is evaluated once here (the source
  evaluates it three times, with the same result); the assertion compares the integer
  \<^verbatim>\<open>int(round(float(line)))\<close> with the float exactly.
\<close>

fun read_lines :: "(string \<Rightarrow> error + npfloat) \<Rightarrow> string list \<Rightarrow> int list \<Rightarrow> error + int list" where
  "read_lines other_syntax [] numbers = Inr numbers"
| "read_lines other_syntax (line # rest) numbers =
     (case py_float other_syntax line of
        Inl e \<Rightarrow> Inl e
      | Inr x \<Rightarrow>
          (case py_round x of
             Inl e \<Rightarrow> Inl e
           | Inr k \<Rightarrow>
               if Fin (of_int k) \<noteq> x then Inl AssertionError
               else read_lines other_syntax rest (numbers @ [k])))"

text \<open>The finite value a line parses to, if it does.\<close>

definition line_value :: "(string \<Rightarrow> error + npfloat) \<Rightarrow> string \<Rightarrow> real option" where
  "line_value other_syntax line =
     (case py_float other_syntax line of Inr (Fin r) \<Rightarrow> Some r | _ \<Rightarrow> None)"

definition read_numbers_from_file ::
  "(string \<Rightarrow> error + npfloat) \<Rightarrow> filesystem \<Rightarrow> string \<Rightarrow> error + int list" where
  "read_numbers_from_file other_syntax fs filename =
     (case fs filename of
        None \<Rightarrow> Inl FileNotFoundError
      | Some infile \<Rightarrow> read_lines other_syntax (file_lines infile) [])"

section \<open>Properties\<close>

subsection \<open>Complementing a binary vector\<close>

text \<open>
  Claim C7. For every binary vector \<open>x\<close>, \<open>get_solution x\<close> has the length of \<open>x\<close>, its
  entry \<open>i\<close> is \<open>1 - x ! i\<close> (so it is \<open>1\<close> exactly where \<open>x\<close> is \<open>0\<close>, and the result is
  binary again), and applying \<open>get_solution\<close> twice gives \<open>x\<close> back.
\<close>

theorem get_solution_complement_involution:
  assumes "binary_vector x"
  shows "length (get_solution x) = length x
    \<and> (\<forall>i<length x. get_solution x ! i = 1 - x ! i)
    \<and> (\<forall>i<length x. (get_solution x ! i = 1) = (x ! i = 0))
    \<and> binary_vector (get_solution x)
    \<and> get_solution (get_solution x) = x"
proof -
  have "binary_vector (get_solution x)"
    using assms by (auto simp: binary_vector_def get_solution_def list_all_iff)
  moreover have "get_solution (get_solution x) = x"
    by (simp add: get_solution_def comp_def)
  ultimately show ?thesis
    by (simp add: get_solution_def)
qed

theorem get_solution_complement_involution_witness:
  "binary_vector [1, 0, 1] \<and> get_solution [1, 0, 1] = [0, 1, 0]
   \<and> binary_vector (get_solution [1, 0, 1])
   \<and> get_solution (get_solution [1, 0, 1]) = [1, 0, 1]"
proof -
  have b: "binary_vector [1, 0, 1]"
    by (simp add: binary_vector_def)
  have "get_solution [1, 0, 1] = [0, 1, 0]"
    by (simp add: get_solution_def)
  with b get_solution_complement_involution [OF b] show ?thesis
    by simp
qed

subsection \<open>Checking a candidate solution\<close>

lemma select_subsets_in_range:
  "\<forall>i\<in>set is. i < length sol \<Longrightarrow>
   select_subsets sol ls is acc = Inr (acc @ map (\<lambda>i. ls ! i) (filter (\<lambda>i. sol ! i = 1) is))"
  by (induction "is" arbitrary: acc) auto

lemma select_subsets_short:
  "\<exists>i\<in>set is. length sol \<le> i \<Longrightarrow> select_subsets sol ls is acc = Inl IndexError"
  by (induction "is" arbitrary: acc) auto

lemma overlap_found_selected:
  fixes ls :: "'a list list"
  defines "n \<equiv> length ls"
  shows "overlap_found (map (\<lambda>i. ls ! i) (filter P [0..<n]))
     = (\<exists>i<n. \<exists>j<i. P i \<and> P j \<and> intersects (ls ! i) (ls ! j))"
proof -
  let ?idx = "filter P [0..<n]"
  have sw: "sorted_wrt (<) ?idx"
    by (simp add: sorted_wrt_filter)
  have mem: "\<And>a. a \<in> set ?idx \<longleftrightarrow> a < n \<and> P a"
    by auto
  have "overlap_found (map (\<lambda>i. ls ! i) ?idx)
      = (\<exists>i<length ?idx. \<exists>j<i. intersects (ls ! (?idx ! i)) (ls ! (?idx ! j)))"
    by (simp add: overlap_found_def list_ex_iff Bex_def cong: conj_cong)
  also have "\<dots> = (\<exists>a<n. \<exists>b<a. P a \<and> P b \<and> intersects (ls ! a) (ls ! b))"
  proof
    assume "\<exists>i<length ?idx. \<exists>j<i. intersects (ls ! (?idx ! i)) (ls ! (?idx ! j))"
    then obtain i j where ij: "i < length ?idx" "j < i"
      and x: "intersects (ls ! (?idx ! i)) (ls ! (?idx ! j))" by blast
    from ij have "?idx ! i \<in> set ?idx" "?idx ! j \<in> set ?idx"
      by (simp_all only: nth_mem order.strict_trans)
    moreover from sw ij have "?idx ! j < ?idx ! i"
      by (simp only: sorted_wrt_nth_less)
    ultimately show "\<exists>a<n. \<exists>b<a. P a \<and> P b \<and> intersects (ls ! a) (ls ! b)"
      using x mem by blast
  next
    assume "\<exists>a<n. \<exists>b<a. P a \<and> P b \<and> intersects (ls ! a) (ls ! b)"
    then obtain a b where ab: "a < n" "b < a" "P a" "P b"
      and x: "intersects (ls ! a) (ls ! b)" by blast
    then have "a \<in> set ?idx" "b \<in> set ?idx" by auto
    then obtain i j where i: "i < length ?idx" "?idx ! i = a"
      and j: "j < length ?idx" "?idx ! j = b"
      by (metis in_set_conv_nth)
    have "j < i"
    proof (rule ccontr)
      assume "\<not> j < i"
      then have "i \<le> j" by simp
      with sw j(1) have "?idx ! i \<le> ?idx ! j"
        by (metis le_neq_implies_less order.refl order_less_imp_le sorted_wrt_nth_less)
      with i j ab show False by simp
    qed
    with i j x show "\<exists>i<length ?idx. \<exists>j<i. intersects (ls ! (?idx ! i)) (ls ! (?idx ! j))"
      by blast
  qed
  finally show ?thesis .
qed

lemma check_disjoint_char:
  assumes "length ls \<le> length sol"
  shows "check_disjoint sol ls
     = Inr (\<not> (\<exists>i<length ls. \<exists>j<i. sol ! i = 1 \<and> sol ! j = 1 \<and> intersects (ls ! i) (ls ! j)))"
proof -
  have "\<forall>i\<in>set [0..<length ls]. i < length sol"
    using assms by auto
  then have "select_subsets sol ls [0..<length ls] []
      = Inr (map (\<lambda>i. ls ! i) (filter (\<lambda>i. sol ! i = 1) [0..<length ls]))"
    by (simp only: select_subsets_in_range append_Nil)
  then show ?thesis
    by (simp only: check_disjoint_def overlap_found_selected sum.case if_not_P if_P
        split: if_splits) auto
qed

lemma check_disjoint_short:
  assumes "length sol < length ls"
  shows "check_disjoint sol ls = Inl IndexError"
proof -
  have "\<exists>i\<in>set [0..<length ls]. length sol \<le> i"
    using assms by auto
  then show ?thesis
    by (simp add: check_disjoint_def select_subsets_short)
qed

text \<open>
  Claim C5, as the code has it. When \<open>sol\<close> has at least as many entries as there are
  subsets, \<open>check_disjoint\<close> raises nothing and returns true exactly when every pair of
  subsets selected by \<open>sol[i] == 1\<close> has an empty intersection; in particular it returns
  true when at most one subset is selected. When \<open>sol\<close> is shorter than the list of
  subsets, the read of \<open>sol[i]\<close> raises \<open>IndexError\<close>.
\<close>

theorem check_disjoint_iff_selected_pairwise_disjoint:
  "(length ls \<le> length sol \<longrightarrow>
      check_disjoint sol ls
        = Inr (\<forall>i<length ls. \<forall>j<i. sol ! i = 1 \<and> sol ! j = 1 \<longrightarrow> set (ls ! i) \<inter> set (ls ! j) = {})
      \<and> (length (filter (\<lambda>i. sol ! i = 1) [0..<length ls]) \<le> 1 \<longrightarrow> check_disjoint sol ls = Inr True))
   \<and> (length sol < length ls \<longrightarrow> check_disjoint sol ls = Inl IndexError)"
proof (intro conjI impI)
  assume len: "length ls \<le> length sol"
  then show char: "check_disjoint sol ls
      = Inr (\<forall>i<length ls. \<forall>j<i. sol ! i = 1 \<and> sol ! j = 1 \<longrightarrow> set (ls ! i) \<inter> set (ls ! j) = {})"
    by (auto simp: check_disjoint_char intersects_def)
  assume one: "length (filter (\<lambda>i. sol ! i = 1) [0..<length ls]) \<le> 1"
  have "\<not> (\<exists>i<length ls. \<exists>j<i. sol ! i = 1 \<and> sol ! j = 1)"
  proof
    assume "\<exists>i<length ls. \<exists>j<i. sol ! i = 1 \<and> sol ! j = 1"
    then obtain i j where ij: "i < length ls" "j < i" "sol ! i = 1" "sol ! j = 1"
      by blast
    then have "{i, j} \<subseteq> {k. k < length ls \<and> sol ! k = 1}"
      by auto
    then have "card {i, j} \<le> card {k. k < length ls \<and> sol ! k = 1}"
      by (intro card_mono) auto
    moreover have "card {i, j} = 2"
      using ij(2) by simp
    moreover have "length (filter (\<lambda>i. sol ! i = 1) [0..<length ls])
        = card {k. k < length ls \<and> sol ! k = 1}"
      by (simp only: length_filter_conv_card length_upt diff_zero) (metis (no_types, lifting) nth_upt add_0)
    ultimately show False
      using one by simp
  qed
  with char show "check_disjoint sol ls = Inr True"
    by auto
next
  assume "length sol < length ls"
  then show "check_disjoint sol ls = Inl IndexError"
    by (rule check_disjoint_short)
qed

theorem check_disjoint_iff_selected_pairwise_disjoint_witness:
  "length [[1, 2], [2, 3], [4, 5 :: nat]] \<le> length [1, 1, 0 :: real]
   \<and> check_disjoint [1, 1, 0] [[1, 2], [2, 3], [4, 5 :: nat]] = Inr False
   \<and> length (filter (\<lambda>i. [0, 1, 0 :: real] ! i = 1) [0..<length [[1, 2], [2, 3], [4, 5 :: nat]]]) \<le> 1
   \<and> check_disjoint [0, 1, 0] [[1, 2], [2, 3], [4, 5 :: nat]] = Inr True
   \<and> length [1 :: real] < length [[1, 2], [2, 3 :: nat]]
   \<and> check_disjoint [1] [[1, 2], [2, 3 :: nat]] = Inl IndexError"
proof -
  have a: "check_disjoint [1, 1, 0] [[1, 2], [2, 3], [4, 5 :: nat]] = Inr False"
    using check_disjoint_iff_selected_pairwise_disjoint
      [of "[[1, 2], [2, 3], [4, 5 :: nat]]" "[1, 1, 0]"]
    by (simp add: All_less_Suc numeral_3_eq_3)
  have f: "length (filter (\<lambda>i. [0, 1, 0 :: real] ! i = 1) [0..<length [[1, 2], [2, 3], [4, 5 :: nat]]]) \<le> 1"
    by (simp add: upt_rec)
  have "length [[1, 2], [2, 3], [4, 5 :: nat]] \<le> length [0, 1, 0 :: real]"
    by simp
  from check_disjoint_iff_selected_pairwise_disjoint
      [of "[[1, 2], [2, 3], [4, 5 :: nat]]" "[0, 1, 0]", THEN conjunct1, THEN mp, OF this,
        THEN conjunct2, THEN mp, OF f]
  have b: "check_disjoint [0, 1, 0] [[1, 2], [2, 3], [4, 5 :: nat]] = Inr True" .
  have c: "check_disjoint [1] [[1, 2], [2, 3 :: nat]] = Inl IndexError"
    using check_disjoint_iff_selected_pairwise_disjoint [of "[[1, 2], [2, 3 :: nat]]" "[1]"]
    by simp
  from a f b c show ?thesis
    by simp
qed

text \<open>
  Claim C5 as stated says that \<open>check_disjoint\<close> never raises. With one subset and an empty
  \<open>sol\<close> the first loop reads \<open>sol[0]\<close>, which raises \<open>IndexError\<close>.
\<close>

theorem check_disjoint_raises_counterexample:
  "check_disjoint [] [[1 :: nat]] = Inl IndexError"
  by (simp add: check_disjoint_def)

text \<open>
  Claim C10. The result depends only on which of the first \<open>n\<close> entries of \<open>sol\<close> equal \<open>1\<close>,
  where \<open>n\<close> is the number of subsets: two vectors with at least \<open>n\<close> entries that agree,
  below \<open>n\<close>, on the positions holding \<open>1\<close> give the same result; so entries at indices
  \<open>n\<close> and above are ignored, and an entry other than \<open>1\<close> (such as \<open>2\<close> or \<open>-1\<close>) counts
  as \<open>0\<close>.
\<close>

theorem check_disjoint_depends_on_selected_prefix:
  assumes "length ls \<le> length sol" and "length ls \<le> length sol'"
    and "\<forall>i<length ls. (sol ! i = 1) = (sol' ! i = 1)"
  shows "check_disjoint sol ls = check_disjoint sol' ls
    \<and> check_disjoint (sol @ extra) ls = check_disjoint sol ls
    \<and> check_disjoint (map (\<lambda>v. if v = 1 then 1 else 0) sol) ls = check_disjoint sol ls"
proof -
  have agree: "check_disjoint a ls = check_disjoint b ls"
    if "length ls \<le> length a" "length ls \<le> length b"
      "\<forall>i<length ls. (a ! i = 1) = (b ! i = 1)" for a b :: "real list"
  proof -
    have "(\<exists>i<length ls. \<exists>j<i. a ! i = 1 \<and> a ! j = 1 \<and> intersects (ls ! i) (ls ! j))
        = (\<exists>i<length ls. \<exists>j<i. b ! i = 1 \<and> b ! j = 1 \<and> intersects (ls ! i) (ls ! j))"
      using that(3) by (meson order.strict_trans)
    with that(1,2) show ?thesis
      by (simp only: check_disjoint_char)
  qed
  have "check_disjoint sol ls = check_disjoint sol' ls"
    using assms by (rule agree)
  moreover have "check_disjoint (sol @ extra) ls = check_disjoint sol ls"
    using assms(1) by (intro agree) (auto simp: nth_append)
  moreover have "check_disjoint (map (\<lambda>v. if v = 1 then 1 else 0) sol) ls = check_disjoint sol ls"
    using assms(1) by (intro agree) auto
  ultimately show ?thesis
    by simp
qed

theorem check_disjoint_depends_on_selected_prefix_witness:
  "check_disjoint [1, 2, - 1, 1] [[1, 2], [2, 3], [4, 5 :: nat]]
     = check_disjoint [1, 0, 0] [[1, 2], [2, 3], [4, 5 :: nat]]
   \<and> check_disjoint ([1, 2, - 1, 1] @ [1, 1]) [[1, 2], [2, 3], [4, 5 :: nat]]
     = check_disjoint [1, 2, - 1, 1] [[1, 2], [2, 3], [4, 5 :: nat]]
   \<and> check_disjoint (map (\<lambda>v. if v = 1 then 1 else 0) [1, 2, - 1, 1 :: real]) [[1, 2], [2, 3], [4, 5 :: nat]]
     = check_disjoint [1, 2, - 1, 1] [[1, 2], [2, 3], [4, 5 :: nat]]
   \<and> check_disjoint [1, 0, 0] [[1, 2], [2, 3], [4, 5 :: nat]] = Inr True"
proof -
  have "\<forall>i<length [[1, 2], [2, 3], [4, 5 :: nat]].
      ([1, 2, - 1, 1 :: real] ! i = 1) = ([1, 0, 0 :: real] ! i = 1)"
    by (simp add: All_less_Suc numeral_3_eq_3)
  then have "check_disjoint [1, 2, - 1, 1] [[1, 2], [2, 3], [4, 5 :: nat]]
       = check_disjoint [1, 0, 0] [[1, 2], [2, 3], [4, 5 :: nat]]
     \<and> check_disjoint ([1, 2, - 1, 1] @ [1, 1]) [[1, 2], [2, 3], [4, 5 :: nat]]
       = check_disjoint [1, 2, - 1, 1] [[1, 2], [2, 3], [4, 5 :: nat]]
     \<and> check_disjoint (map (\<lambda>v. if v = 1 then 1 else 0) [1, 2, - 1, 1 :: real]) [[1, 2], [2, 3], [4, 5 :: nat]]
       = check_disjoint [1, 2, - 1, 1] [[1, 2], [2, 3], [4, 5 :: nat]]"
    by (intro check_disjoint_depends_on_selected_prefix) simp_all
  moreover have "check_disjoint [1, 0, 0] [[1, 2], [2, 3], [4, 5 :: nat]] = Inr True"
    by (simp add: check_disjoint_def overlap_found_def upt_rec)
  ultimately show ?thesis
    by blast
qed


subsection \<open>The Hamiltonian of a set packing instance\<close>

lemma zeros_update: "(replicate n (0::real))[i := 1] = map (\<lambda>k. if k = i then 1 else 0) [0..<n]"
  by (rule nth_equalityI) (simp_all add: nth_list_update)

lemma zeros_update2:
  "(map (\<lambda>k. if k = i then 1 else 0) [0..<n])[j := 1]
     = map (\<lambda>k. if k = i \<or> k = j then (1::real) else 0) [0..<n]"
proof (rule nth_equalityI)
  fix k
  assume "k < length ((map (\<lambda>k. if k = i then (1::real) else 0) [0..<n])[j := 1])"
  then have "k < n"
    by simp
  then show "(map (\<lambda>k. if k = i then 1 else 0) [0..<n])[j := 1] ! k
      = map (\<lambda>k. if k = i \<or> k = j then (1::real) else 0) [0..<n] ! k"
    by (cases "k = j") simp_all
qed simp

lemma constraint_step_eq:
  "constraint_step 10 ls (length ls) i j (pl, sh)
     = (pl @ pair_terms ls (i, j), sh + 5 / 2 * (if intersecting_pair ls (i, j) then 1 else 0))"
  by (simp add: constraint_step_def pair_terms_def intersecting_pair_def intersects_def
      zeros_update zeros_update2 Z_term_def ZZ_term_def np_zeros_def Let_def)

lemma inner_loop_eq:
  "fold (constraint_step 10 ls (length ls) i) js (pl, sh)
     = (pl @ concat (map (\<lambda>j. pair_terms ls (i, j)) js),
        sh + 5 / 2 * real (length (filter (\<lambda>j. intersecting_pair ls (i, j)) js)))"
  by (induction js arbitrary: pl sh) (simp_all add: constraint_step_eq algebra_simps)

lemma outer_loop_eq:
  "fold (\<lambda>i. fold (constraint_step 10 ls (length ls) i) [0..<i]) is (pl, sh)
     = (pl @ concat (map (pair_terms ls) (concat (map (\<lambda>i. map (\<lambda>j. (i, j)) [0..<i]) is))),
        sh + 5 / 2 * real (length (filter (intersecting_pair ls)
                 (concat (map (\<lambda>i. map (\<lambda>j. (i, j)) [0..<i]) is)))))"
proof (induction "is" arbitrary: pl sh)
  case Nil
  show ?case by simp
next
  case (Cons i "is")
  show ?case
    by (simp add: inner_loop_eq Cons.IH filter_map comp_def map_concat algebra_simps)
qed

lemma constraint_loop_eq:
  "constraint_loop 10 ls (length ls) ([], 0)
     = (concat (map (pair_terms ls) (pair_order (length ls))),
        5 / 2 * real (length (filter (intersecting_pair ls) (pair_order (length ls)))))"
  by (simp add: constraint_loop_def outer_loop_eq pair_order_def)

lemma objective_fold_eq:
  "fold (objective_step n) is (pl, sh)
     = (pl @ map (\<lambda>i. (- 1 / 2, Z_term n i)) is, sh - real (length is) / 2)"
  by (induction "is" arbitrary: pl sh)
     (simp_all add: objective_step_def zeros_update Z_term_def np_zeros_def Let_def algebra_simps)

lemma objective_loop_eq:
  "objective_loop n (pl, sh) = (pl @ map (\<lambda>i. (- 1 / 2, Z_term n i)) [0..<n], sh - real n / 2)"
  by (simp add: objective_loop_def objective_fold_eq)

lemma length_pair_terms:
  "length (concat (map (pair_terms ls) ps)) = 3 * length (filter (intersecting_pair ls) ps)"
  by (induction ps) (simp_all add: pair_terms_def intersecting_pair_def split: prod.splits)

lemma set_pair_order: "set (pair_order n) = {(i, j). j < i \<and> i < n}"
  by (auto simp: pair_order_def)

lemma distinct_pair_order: "distinct (pair_order n)"
  unfolding pair_order_def
proof (rule distinct_concat)
  have "inj_on (\<lambda>i. map (\<lambda>j. (i, j)) [0..<i]) (set [0..<n])"
    by (rule inj_onI) (metis diff_zero length_map length_upt)
  then show "distinct (map (\<lambda>i. map (\<lambda>j. (i, j)) [0..<i]) [0..<n])"
    by (simp add: distinct_map)
qed (auto simp: distinct_map inj_on_def)

lemma count_intersecting_pairs:
  "length (filter (intersecting_pair ls) (pair_order n))
     = card {(i, j). j < i \<and> i < n \<and> set (ls ! i) \<inter> set (ls ! j) \<noteq> {}}"
proof -
  have "{x. intersecting_pair ls x} \<inter> set (pair_order n)
      = {(i, j). j < i \<and> i < n \<and> set (ls ! i) \<inter> set (ls ! j) \<noteq> {}}"
    by (auto simp: set_pair_order intersecting_pair_def)
  then show ?thesis
    by (simp add: distinct_length_filter distinct_pair_order)
qed


lemma get_setpacking_qubitops_eq:
  "get_setpacking_qubitops ls
     = (Operator (concat (map (pair_terms ls) (pair_order (length ls)))
                  @ map (\<lambda>i. (- 1 / 2, Z_term (length ls) i)) [0..<length ls]),
        5 / 2 * real (length (filter (intersecting_pair ls) (pair_order (length ls))))
          - real (length ls) / 2)"
  by (simp add: get_setpacking_qubitops_def objective_loop_eq constraint_loop_eq Let_def)

lemma add_pauli_labels:
  "map snd (add_pauli c acc)
     = (if snd c \<in> set (map snd acc) then map snd acc else map snd acc @ [snd c])"
  by (induction acc) auto

lemma fold_add_pauli_labels:
  "distinct (map snd acc) \<Longrightarrow>
   distinct (map snd (fold add_pauli xs acc))
   \<and> set (map snd (fold add_pauli xs acc)) = set (map snd acc) \<union> set (map snd xs)"
proof (induction xs arbitrary: acc)
  case Nil
  then show ?case by simp
next
  case (Cons x xs)
  from Cons.prems have d: "distinct (map snd (add_pauli x acc))"
    by (simp add: add_pauli_labels)
  have s: "set (map snd (add_pauli x acc)) = insert (snd x) (set (map snd acc))"
    by (auto simp: add_pauli_labels)
  from Cons.IH [OF d] s show ?case
    by auto
qed

lemma length_simplify_paulis: "length (simplify_paulis xs) = card (snd ` set xs)"
proof -
  from fold_add_pauli_labels [of "[]" xs]
  have "distinct (map snd (simplify_paulis xs))"
    and "set (map snd (simplify_paulis xs)) = snd ` set xs"
    by (simp_all add: simplify_paulis_def)
  then have "card (snd ` set xs) = length (map snd (simplify_paulis xs))"
    by (metis distinct_card)
  then show ?thesis
    by simp
qed

lemma Z_term_eq: "i < n \<Longrightarrow> Z_term n i = Z_term n i' \<Longrightarrow> i = i'"
proof -
  assume i: "i < n" and "Z_term n i = Z_term n i'"
  then have "map (\<lambda>k. if k = i then 1 else (0::real)) [0..<n]
      = map (\<lambda>k. if k = i' then 1 else 0) [0..<n]"
    by (simp add: Z_term_def)
  then have "map (\<lambda>k. if k = i then 1 else (0::real)) [0..<n] ! i
      = map (\<lambda>k. if k = i' then 1 else 0) [0..<n] ! i"
    by (rule arg_cong)
  with i have "(if i = i then 1 else (0::real)) = (if i = i' then 1 else 0)"
    by (simp only: nth_map length_upt diff_zero nth_upt add_0)
  then show "i = i'"
    by (simp split: if_splits)
qed

lemma ZZ_term_members:
  assumes "ZZ_term n i j = ZZ_term n i' j'" and "k < n"
  shows "(k = i \<or> k = j) = (k = i' \<or> k = j')"
proof -
  from assms(1) have "map (\<lambda>k. if k = i \<or> k = j then 1 else (0::real)) [0..<n]
      = map (\<lambda>k. if k = i' \<or> k = j' then 1 else 0) [0..<n]"
    by (simp add: ZZ_term_def)
  then have "map (\<lambda>k. if k = i \<or> k = j then 1 else (0::real)) [0..<n] ! k
      = map (\<lambda>k. if k = i' \<or> k = j' then 1 else 0) [0..<n] ! k"
    by (rule arg_cong)
  with assms(2) have "(if k = i \<or> k = j then 1 else (0::real)) = (if k = i' \<or> k = j' then 1 else 0)"
    by (simp only: nth_map length_upt diff_zero nth_upt add_0)
  then show ?thesis
    by (simp split: if_splits)
qed

lemma ZZ_term_eq:
  assumes "ZZ_term n i j = ZZ_term n i' j'" and "j < i" "i < n" and "j' < i'" "i' < n"
  shows "i = i' \<and> j = j'"
proof -
  from assms have "j < n" "j' < n" by simp_all
  with assms ZZ_term_members [OF assms(1), of i] ZZ_term_members [OF assms(1), of j]
    ZZ_term_members [OF assms(1), of i'] ZZ_term_members [OF assms(1), of j']
  show ?thesis
    by auto
qed

lemma ZZ_term_neq_Z_term:
  assumes "j < i" "i < n"
  shows "ZZ_term n i j \<noteq> Z_term n i'"
proof
  assume "ZZ_term n i j = Z_term n i'"
  then have eq: "map (\<lambda>k. if k = i \<or> k = j then 1 else (0::real)) [0..<n]
      = map (\<lambda>k. if k = i' then 1 else 0) [0..<n]"
    by (simp add: ZZ_term_def Z_term_def)
  from assms have "j < n" by simp
  have at: "(if k = i \<or> k = j then 1 else (0::real)) = (if k = i' then 1 else 0)" if "k < n" for k
  proof -
    from eq have "map (\<lambda>k. if k = i \<or> k = j then 1 else (0::real)) [0..<n] ! k
        = map (\<lambda>k. if k = i' then 1 else 0) [0..<n] ! k"
      by (rule arg_cong)
    with that show ?thesis
      by (simp only: nth_map length_upt diff_zero nth_upt add_0)
  qed
  from at [OF assms(2)] at [OF \<open>j < n\<close>] have "i = i'" "j = i'"
    by (simp_all split: if_splits)
  with assms(1) show False
    by simp
qed

lemma labels_of_term_list:
  "snd ` set (concat (map (pair_terms ls) (pair_order (length ls)))
              @ map (\<lambda>i. (- 1 / 2, Z_term (length ls) i)) [0..<length ls])
     = (\<lambda>(i, j). ZZ_term (length ls) i j)
         ` {(i, j). j < i \<and> i < length ls \<and> set (ls ! i) \<inter> set (ls ! j) \<noteq> {}}
       \<union> Z_term (length ls) ` {..<length ls}"
  (is "?L = ?ZZ \<union> ?Z")
proof
  show "?L \<subseteq> ?ZZ \<union> ?Z"
    by (auto simp: set_pair_order pair_terms_def split: if_splits) force+
  show "?ZZ \<union> ?Z \<subseteq> ?L"
  proof
    fix P
    assume "P \<in> ?ZZ \<union> ?Z"
    then consider i j where "j < i" "i < length ls" "set (ls ! i) \<inter> set (ls ! j) \<noteq> {}"
        "P = ZZ_term (length ls) i j"
      | i where "i < length ls" "P = Z_term (length ls) i"
      by auto
    then show "P \<in> ?L"
    proof cases
      case 1
      then have "(5 / 2, P) \<in> set (pair_terms ls (i, j))" "(i, j) \<in> set (pair_order (length ls))"
        by (simp_all add: pair_terms_def set_pair_order)
      then have "(5 / 2, P) \<in> set (concat (map (pair_terms ls) (pair_order (length ls))))"
        by auto
      then show ?thesis
        by force
    next
      case 2
      then have "(- 1 / 2, P) \<in> set (map (\<lambda>i. (- 1 / 2, Z_term (length ls) i)) [0..<length ls])"
        by auto
      then show ?thesis
        by force
    qed
  qed
qed

lemma card_labels_of_term_list:
  "card (snd ` set (concat (map (pair_terms ls) (pair_order (length ls)))
                    @ map (\<lambda>i. (- 1 / 2, Z_term (length ls) i)) [0..<length ls]))
     = card {(i, j). j < i \<and> i < length ls \<and> set (ls ! i) \<inter> set (ls ! j) \<noteq> {}} + length ls"
proof -
  let ?n = "length ls"
  let ?P = "{(i, j). j < i \<and> i < ?n \<and> set (ls ! i) \<inter> set (ls ! j) \<noteq> {}}"
  have fin: "finite ?P"
  proof (rule finite_subset)
    show "?P \<subseteq> {..<?n} \<times> {..<?n}" by auto
  qed simp
  have inj_zz: "inj_on (\<lambda>(i, j). ZZ_term ?n i j) ?P"
    by (rule inj_onI) (auto dest: ZZ_term_eq)
  have inj_z: "inj_on (Z_term ?n) {..<?n}"
    by (rule inj_onI) (auto dest: Z_term_eq)
  have disj: "(\<lambda>(i, j). ZZ_term ?n i j) ` ?P \<inter> Z_term ?n ` {..<?n} = {}"
    using ZZ_term_neq_Z_term by fastforce
  have "card ((\<lambda>(i, j). ZZ_term ?n i j) ` ?P \<union> Z_term ?n ` {..<?n})
      = card ((\<lambda>(i, j). ZZ_term ?n i j) ` ?P) + card (Z_term ?n ` {..<?n})"
    using fin disj by (intro card_Un_disjoint) simp_all
  also have "\<dots> = card ?P + ?n"
    using inj_zz inj_z by (simp add: card_image)
  finally show ?thesis
    by (simp only: labels_of_term_list)
qed

text \<open>
  Claim C1. The constraint pass visits the pairs \<open>(i, j)\<close> with the outer index \<open>i\<close> running
  over \<open>0..n-1\<close> and the inner index \<open>j\<close> over \<open>0..i-1\<close> (the list \<open>pair_order n\<close>). For
  each pair whose subsets intersect it appends exactly the three terms \<open>Z\<^sub>iZ\<^sub>j\<close>, \<open>Z\<^sub>i\<close>,
  \<open>Z\<^sub>j\<close>, in this order and each with coefficient \<open>2.5\<close>, and adds \<open>2.5\<close> to the shift; a
  disjoint pair contributes nothing. The list that \<open>get_setpacking_qubitops\<close> hands to
  \<open>Operator\<close> begins with these terms.
\<close>

theorem constraint_pass_appends_three_terms_per_intersecting_pair:
  "pair_order n = concat (map (\<lambda>i. map (\<lambda>j. (i, j)) [0..<i]) [0..<n])
   \<and> pair_terms ls (i, j)
       = (if set (ls ! i) \<inter> set (ls ! j) \<noteq> {}
          then [(5 / 2, ZZ_term (length ls) i j), (5 / 2, Z_term (length ls) i),
                (5 / 2, Z_term (length ls) j)]
          else [])
   \<and> constraint_loop 10 ls (length ls) ([], 0)
       = (concat (map (pair_terms ls) (pair_order (length ls))),
          5 / 2 * real (length (filter (\<lambda>(i, j). set (ls ! i) \<inter> set (ls ! j) \<noteq> {})
                                 (pair_order (length ls)))))
   \<and> fst (get_setpacking_qubitops ls)
       = Operator (concat (map (pair_terms ls) (pair_order (length ls)))
                   @ map (\<lambda>i. (- 1 / 2, Z_term (length ls) i)) [0..<length ls])"
proof -
  have "intersecting_pair ls = (\<lambda>(i, j). set (ls ! i) \<inter> set (ls ! j) \<noteq> {})"
    by (simp add: intersecting_pair_def fun_eq_iff)
  then have "constraint_loop 10 ls (length ls) ([], 0)
      = (concat (map (pair_terms ls) (pair_order (length ls))),
         5 / 2 * real (length (filter (\<lambda>(i, j). set (ls ! i) \<inter> set (ls ! j) \<noteq> {})
                                (pair_order (length ls)))))"
    using constraint_loop_eq [of ls] by simp
  moreover have "fst (get_setpacking_qubitops ls)
      = Operator (concat (map (pair_terms ls) (pair_order (length ls)))
                  @ map (\<lambda>i. (- 1 / 2, Z_term (length ls) i)) [0..<length ls])"
    by (simp add: get_setpacking_qubitops_eq)
  ultimately show ?thesis
    by (simp add: pair_order_def pair_terms_def)
qed

theorem constraint_pass_appends_three_terms_per_intersecting_pair_witness:
  "constraint_loop 10 [[1, 2], [2, 3], [4, 5 :: nat]] 3 ([], 0)
     = ([(5 / 2, Pauli [1, 1, 0] [0, 0, 0]), (5 / 2, Pauli [0, 1, 0] [0, 0, 0]),
         (5 / 2, Pauli [1, 0, 0] [0, 0, 0])], 5 / 2)"
proof -
  have "pair_order 3 = [(1, 0), (2, 0), (2, 1)]"
    by (simp add: pair_order_def upt_rec)
  then show ?thesis
    using constraint_pass_appends_three_terms_per_intersecting_pair
      [of 3 "[[1, 2], [2, 3], [4, 5 :: nat]]" 1 0]
    by (simp add: pair_terms_def ZZ_term_def Z_term_def upt_rec eval_nat_numeral)
qed

text \<open>
  Claim C2. After the constraint pass, the objective pass appends, for every qubit \<open>i\<close>
  from \<open>0\<close> to \<open>n-1\<close> in this order, one single-qubit term \<open>Z\<^sub>i\<close> with coefficient \<open>-0.5\<close>,
  and adds \<open>-0.5\<close> to the shift for each \<open>i\<close>; the operator returned is built from the
  constraint terms followed by these.
\<close>

theorem objective_pass_appends_one_term_per_qubit:
  "objective_loop n (pl, sh)
     = (pl @ map (\<lambda>i. (- 1 / 2, Z_term n i)) [0..<n], sh + real n * (- 1 / 2))
   \<and> get_setpacking_qubitops ls
     = (Operator (fst (constraint_loop 10 ls (length ls) ([], 0))
                  @ map (\<lambda>i. (- 1 / 2, Z_term (length ls) i)) [0..<length ls]),
        snd (constraint_loop 10 ls (length ls) ([], 0)) + real (length ls) * (- 1 / 2))"
  by (simp add: get_setpacking_qubitops_def objective_loop_eq constraint_loop_eq Let_def)

theorem objective_pass_appends_one_term_per_qubit_witness:
  "objective_loop 2 ([], 0) = ([(- 1 / 2, Pauli [1, 0] [0, 0]), (- 1 / 2, Pauli [0, 1] [0, 0])], - 1)"
proof -
  from objective_pass_appends_one_term_per_qubit [of 2 "[]" 0 "[]"]
  have "objective_loop 2 ([], 0)
      = ([] @ map (\<lambda>i. (- 1 / 2, Z_term 2 i)) [0..<2], 0 + real 2 * (- 1 / 2))"
    by (rule conjunct1)
  also have "\<dots> = ([(- 1 / 2, Pauli [1, 0] [0, 0]), (- 1 / 2, Pauli [0, 1] [0, 0])], - 1)"
    by (simp add: Z_term_def upt_rec eval_nat_numeral)
  finally show ?thesis .
qed

text \<open>
  Claim C3, as the code has it. With \<open>p\<close> the number of unordered pairs of intersecting
  subsets, the list of terms that \<open>get_setpacking_qubitops\<close> hands to \<open>Operator\<close> has
  exactly \<open>3p + n\<close> terms and the shift is \<open>2.5p - 0.5n\<close>; the operator adds up the terms
  with the same Pauli, so that it holds \<open>p + n\<close> terms. For the empty list the operator
  has no term and the shift is \<open>0\<close>. For the subsets \<open>{1,2}\<close>, \<open>{2,3}\<close>, \<open>{4,5}\<close> the shift
  is \<open>1\<close>, the one intersecting pair contributes three terms of coefficient \<open>2.5\<close> and the
  objective pass three terms of coefficient \<open>-0.5\<close> to the list, and the operator holds
  the four terms \<open>2.5 Z\<^sub>1Z\<^sub>0\<close>, \<open>2 Z\<^sub>1\<close>, \<open>2 Z\<^sub>0\<close>, \<open>-0.5 Z\<^sub>2\<close>.
\<close>

theorem number_of_terms_and_shift:
  "get_setpacking_qubitops ls
     = (Operator (concat (map (pair_terms ls) (pair_order (length ls)))
                  @ map (\<lambda>i. (- 1 / 2, Z_term (length ls) i)) [0..<length ls]),
        5 / 2 * real (card {(i, j). j < i \<and> i < length ls \<and> set (ls ! i) \<inter> set (ls ! j) \<noteq> {}})
          - 1 / 2 * real (length ls))
   \<and> length (concat (map (pair_terms ls) (pair_order (length ls)))
             @ map (\<lambda>i. (- 1 / 2, Z_term (length ls) i)) [0..<length ls])
     = 3 * card {(i, j). j < i \<and> i < length ls \<and> set (ls ! i) \<inter> set (ls ! j) \<noteq> {}} + length ls
   \<and> length (paulis (fst (get_setpacking_qubitops ls)))
     = card {(i, j). j < i \<and> i < length ls \<and> set (ls ! i) \<inter> set (ls ! j) \<noteq> {}} + length ls
   \<and> get_setpacking_qubitops [] = (Operator [], 0)
   \<and> paulis (Operator []) = []
   \<and> get_setpacking_qubitops [[1, 2], [2, 3], [4, 5 :: nat]]
     = (Operator [(5 / 2, Pauli [1, 1, 0] [0, 0, 0]), (5 / 2, Pauli [0, 1, 0] [0, 0, 0]),
                  (5 / 2, Pauli [1, 0, 0] [0, 0, 0]), (- 1 / 2, Pauli [1, 0, 0] [0, 0, 0]),
                  (- 1 / 2, Pauli [0, 1, 0] [0, 0, 0]), (- 1 / 2, Pauli [0, 0, 1] [0, 0, 0])],
        1)
   \<and> paulis (Operator [(5 / 2, Pauli [1, 1, 0] [0, 0, 0]), (5 / 2, Pauli [0, 1, 0] [0, 0, 0]),
                  (5 / 2, Pauli [1, 0, 0] [0, 0, 0]), (- 1 / 2, Pauli [1, 0, 0] [0, 0, 0]),
                  (- 1 / 2, Pauli [0, 1, 0] [0, 0, 0]), (- 1 / 2, Pauli [0, 0, 1] [0, 0, 0])])
     = [(5 / 2, Pauli [1, 1, 0] [0, 0, 0]), (2, Pauli [0, 1, 0] [0, 0, 0]),
        (2, Pauli [1, 0, 0] [0, 0, 0]), (- 1 / 2, Pauli [0, 0, 1] [0, 0, 0])]"
proof -
  have "get_setpacking_qubitops ls
     = (Operator (concat (map (pair_terms ls) (pair_order (length ls)))
                  @ map (\<lambda>i. (- 1 / 2, Z_term (length ls) i)) [0..<length ls]),
        5 / 2 * real (card {(i, j). j < i \<and> i < length ls \<and> set (ls ! i) \<inter> set (ls ! j) \<noteq> {}})
          - 1 / 2 * real (length ls))"
    by (simp add: get_setpacking_qubitops_eq count_intersecting_pairs)
  moreover have "length (concat (map (pair_terms ls) (pair_order (length ls)))
             @ map (\<lambda>i. (- 1 / 2, Z_term (length ls) i)) [0..<length ls])
     = 3 * card {(i, j). j < i \<and> i < length ls \<and> set (ls ! i) \<inter> set (ls ! j) \<noteq> {}} + length ls"
    by (simp add: length_pair_terms count_intersecting_pairs)
  moreover have "length (paulis (fst (get_setpacking_qubitops ls)))
     = card {(i, j). j < i \<and> i < length ls \<and> set (ls ! i) \<inter> set (ls ! j) \<noteq> {}} + length ls"
    by (simp only: get_setpacking_qubitops_eq fst_conv Operator_def operator.sel
        length_simplify_paulis card_labels_of_term_list)
  moreover have "get_setpacking_qubitops [] = (Operator [], 0)"
    by (simp add: get_setpacking_qubitops_eq pair_order_def)
  moreover have "paulis (Operator []) = []"
    by (simp add: Operator_def simplify_paulis_def)
  moreover have "get_setpacking_qubitops [[1, 2], [2, 3], [4, 5 :: nat]]
     = (Operator [(5 / 2, Pauli [1, 1, 0] [0, 0, 0]), (5 / 2, Pauli [0, 1, 0] [0, 0, 0]),
                  (5 / 2, Pauli [1, 0, 0] [0, 0, 0]), (- 1 / 2, Pauli [1, 0, 0] [0, 0, 0]),
                  (- 1 / 2, Pauli [0, 1, 0] [0, 0, 0]), (- 1 / 2, Pauli [0, 0, 1] [0, 0, 0])],
        1)"
    by (simp add: get_setpacking_qubitops_eq pair_order_def pair_terms_def intersecting_pair_def
        Z_term_def ZZ_term_def upt_rec eval_nat_numeral)
  moreover have "paulis (Operator [(5 / 2, Pauli [1, 1, 0] [0, 0, 0]), (5 / 2, Pauli [0, 1, 0] [0, 0, 0]),
                  (5 / 2, Pauli [1, 0, 0] [0, 0, 0]), (- 1 / 2, Pauli [1, 0, 0] [0, 0, 0]),
                  (- 1 / 2, Pauli [0, 1, 0] [0, 0, 0]), (- 1 / 2, Pauli [0, 0, 1] [0, 0, 0])])
     = [(5 / 2, Pauli [1, 1, 0] [0, 0, 0]), (2, Pauli [0, 1, 0] [0, 0, 0]),
        (2, Pauli [1, 0, 0] [0, 0, 0]), (- 1 / 2, Pauli [0, 0, 1] [0, 0, 0])]"
    by (simp add: Operator_def simplify_paulis_def)
  ultimately show ?thesis
    by blast
qed

theorem number_of_terms_and_shift_witness:
  "card {(i, j). j < i \<and> i < length [[1, 2], [2, 3], [4, 5 :: nat]]
           \<and> set ([[1, 2], [2, 3], [4, 5 :: nat]] ! i) \<inter> set ([[1, 2], [2, 3], [4, 5 :: nat]] ! j) \<noteq> {}} = 1
   \<and> length (paulis (fst (get_setpacking_qubitops [[1, 2], [2, 3], [4, 5 :: nat]]))) = 1 + 3
   \<and> snd (get_setpacking_qubitops [[1, 2], [2, 3], [4, 5 :: nat]]) = 5 / 2 * 1 - 1 / 2 * 3"
proof -
  let ?ex = "[[1, 2], [2, 3], [4, 5 :: nat]]"
  let ?p = "card {(i, j). j < i \<and> i < length ?ex \<and> set (?ex ! i) \<inter> set (?ex ! j) \<noteq> {}}"
  have "length (filter (intersecting_pair ?ex) (pair_order (length ?ex))) = 1"
    by (simp add: pair_order_def intersecting_pair_def upt_rec)
  then have c: "?p = 1"
    by (simp only: count_intersecting_pairs)
  note t = number_of_terms_and_shift [of ?ex]
  from t have g: "get_setpacking_qubitops ?ex
      = (Operator (concat (map (pair_terms ?ex) (pair_order (length ?ex)))
                   @ map (\<lambda>i. (- 1 / 2, Z_term (length ?ex) i)) [0..<length ?ex]),
         5 / 2 * real ?p - 1 / 2 * real (length ?ex))"
    by (rule conjunct1)
  have s: "snd (get_setpacking_qubitops ?ex) = 5 / 2 * real ?p - 1 / 2 * real (length ?ex)"
    by (subst g) (rule snd_conv)
  from t have l: "length (paulis (fst (get_setpacking_qubitops ?ex))) = ?p + length ?ex"
    by blast
  from c s l show ?thesis
    by (simp only: c) simp
qed

text \<open>
  Claim C3 as stated gives the operator returned \<open>3p + n\<close> terms. For the subsets \<open>{1,2}\<close>,
  \<open>{2,3}\<close>, \<open>{4,5}\<close> that would be six; the terms \<open>Z\<^sub>1\<close> and \<open>Z\<^sub>0\<close> each occur twice in the
  list, and the operator returned holds four terms.
\<close>

theorem number_of_terms_counterexample:
  "paulis (fst (get_setpacking_qubitops [[1, 2], [2, 3], [4, 5 :: nat]]))
     = [(5 / 2, Pauli [1, 1, 0] [0, 0, 0]), (2, Pauli [0, 1, 0] [0, 0, 0]),
        (2, Pauli [1, 0, 0] [0, 0, 0]), (- 1 / 2, Pauli [0, 0, 1] [0, 0, 0])]
   \<and> length (paulis (fst (get_setpacking_qubitops [[1, 2], [2, 3], [4, 5 :: nat]]))) \<noteq> 3 * 1 + 3"
proof -
  have "get_setpacking_qubitops [[1, 2], [2, 3], [4, 5 :: nat]]
     = (Operator [(5 / 2, Pauli [1, 1, 0] [0, 0, 0]), (5 / 2, Pauli [0, 1, 0] [0, 0, 0]),
                  (5 / 2, Pauli [1, 0, 0] [0, 0, 0]), (- 1 / 2, Pauli [1, 0, 0] [0, 0, 0]),
                  (- 1 / 2, Pauli [0, 1, 0] [0, 0, 0]), (- 1 / 2, Pauli [0, 0, 1] [0, 0, 0])],
        1)"
    by (simp add: get_setpacking_qubitops_eq pair_order_def pair_terms_def intersecting_pair_def
        Z_term_def ZZ_term_def upt_rec eval_nat_numeral)
  then show ?thesis
    by (simp add: Operator_def simplify_paulis_def)
qed

subsection \<open>Decoding the most likely bit string\<close>

lemma float64_of_int_exact: "\<bar>z\<bar> \<le> 2 ^ 53 \<Longrightarrow> float64_of_int z = Fin (of_int z)"
  by (simp add: float64_of_int_def Let_def)

lemma argmax_loop_NaN: "argmax_loop xs i NaN max_ind = max_ind"
  by (cases xs) simp_all

lemma argmax_loop_first_max:
  assumes "length pre = i" and "max_ind < i" and "pre ! max_ind = m"
    and "\<forall>j<i. pre ! j \<le> m" and "\<forall>j<max_ind. pre ! j < m"
  shows "argmax_loop (map Fin xs) i (Fin m) max_ind < length (pre @ xs)
    \<and> (\<forall>j<length (pre @ xs). (pre @ xs) ! j \<le> (pre @ xs) ! argmax_loop (map Fin xs) i (Fin m) max_ind)
    \<and> (\<forall>j<argmax_loop (map Fin xs) i (Fin m) max_ind.
          (pre @ xs) ! j < (pre @ xs) ! argmax_loop (map Fin xs) i (Fin m) max_ind)"
  using assms
proof (induction xs arbitrary: pre i m max_ind)
  case Nil
  then show ?case by simp
next
  case (Cons x xs)
  show ?case
  proof (cases "x \<le> m")
    case True
    have "argmax_loop (map Fin xs) (Suc i) (Fin m) max_ind < length ((pre @ [x]) @ xs)
      \<and> (\<forall>j<length ((pre @ [x]) @ xs). ((pre @ [x]) @ xs) ! j
            \<le> ((pre @ [x]) @ xs) ! argmax_loop (map Fin xs) (Suc i) (Fin m) max_ind)
      \<and> (\<forall>j<argmax_loop (map Fin xs) (Suc i) (Fin m) max_ind.
            ((pre @ [x]) @ xs) ! j < ((pre @ [x]) @ xs) ! argmax_loop (map Fin xs) (Suc i) (Fin m) max_ind)"
    proof (rule Cons.IH)
      show "length (pre @ [x]) = Suc i" using Cons.prems(1) by simp
      show "max_ind < Suc i" using Cons.prems(2) by simp
      show "(pre @ [x]) ! max_ind = m" using Cons.prems(1,2,3) by (simp add: nth_append)
      show "\<forall>j<Suc i. (pre @ [x]) ! j \<le> m"
        using Cons.prems(1,4) True by (auto simp: nth_append less_Suc_eq)
      show "\<forall>j<max_ind. (pre @ [x]) ! j < m"
        using Cons.prems(1,2,5) by (auto simp: nth_append)
    qed
    with True show ?thesis by simp
  next
    case False
    have "argmax_loop (map Fin xs) (Suc i) (Fin x) i < length ((pre @ [x]) @ xs)
      \<and> (\<forall>j<length ((pre @ [x]) @ xs). ((pre @ [x]) @ xs) ! j
            \<le> ((pre @ [x]) @ xs) ! argmax_loop (map Fin xs) (Suc i) (Fin x) i)
      \<and> (\<forall>j<argmax_loop (map Fin xs) (Suc i) (Fin x) i.
            ((pre @ [x]) @ xs) ! j < ((pre @ [x]) @ xs) ! argmax_loop (map Fin xs) (Suc i) (Fin x) i)"
    proof (rule Cons.IH)
      show "length (pre @ [x]) = Suc i" using Cons.prems(1) by simp
      show "i < Suc i" by simp
      show "(pre @ [x]) ! i = x" using Cons.prems(1) by (simp add: nth_append)
      show "\<forall>j<Suc i. (pre @ [x]) ! j \<le> x"
        using Cons.prems(1,4) False by (fastforce simp: nth_append less_Suc_eq)
      show "\<forall>j<i. (pre @ [x]) ! j < x"
        using Cons.prems(1,4) False by (fastforce simp: nth_append)
    qed
    with False show ?thesis by simp
  qed
qed

lemma np_argmax_Fin:
  assumes "rs \<noteq> []"
  shows "\<exists>k. np_argmax (map Fin rs) = Inr k \<and> k < length rs
    \<and> (\<forall>j<length rs. rs ! j \<le> rs ! k) \<and> (\<forall>j<k. rs ! j < rs ! k)"
proof -
  from assms obtain r rs' where rs: "rs = r # rs'"
    by (cases rs) auto
  have "argmax_loop (map Fin rs') 1 (Fin r) 0 < length ([r] @ rs')
    \<and> (\<forall>j<length ([r] @ rs'). ([r] @ rs') ! j \<le> ([r] @ rs') ! argmax_loop (map Fin rs') 1 (Fin r) 0)
    \<and> (\<forall>j<argmax_loop (map Fin rs') 1 (Fin r) 0.
          ([r] @ rs') ! j < ([r] @ rs') ! argmax_loop (map Fin rs') 1 (Fin r) 0)"
    by (rule argmax_loop_first_max) simp_all
  then show ?thesis
    by (simp add: rs np_argmax_def)
qed

lemma first_max_unique:
  fixes rs :: "real list"
  assumes "k < length rs" "\<forall>j<length rs. rs ! j \<le> rs ! k" "\<forall>j<k. rs ! j < rs ! k"
    and "k' < length rs" "\<forall>j<length rs. rs ! j \<le> rs ! k'" "\<forall>j<k'. rs ! j < rs ! k'"
  shows "k = k'"
proof (rule ccontr)
  assume "k \<noteq> k'"
  then consider "k < k'" | "k' < k" by linarith
  then show False
  proof cases
    case 1
    with assms(6) have "rs ! k < rs ! k'" by simp
    moreover from assms(2,4) have "rs ! k' \<le> rs ! k" by simp
    ultimately show False by simp
  next
    case 2
    with assms(3) have "rs ! k' < rs ! k" by simp
    moreover from assms(5,1) have "rs ! k \<le> rs ! k'" by simp
    ultimately show False by simp
  qed
qed

lemma decode_fold:
  "b \<le> length x \<Longrightarrow>
   fold decode_step [0..<b] (x, k)
     = (map (\<lambda>i. real ((k div 2 ^ i) mod 2)) [0..<b] @ drop b x, k div 2 ^ b)"
proof (induction b)
  case 0
  show ?case by simp
next
  case (Suc b)
  then have b: "b < length x" by simp
  then have "(map (\<lambda>i. real ((k div 2 ^ i) mod 2)) [0..<b] @ drop b x)[b := real (k div 2 ^ b mod 2)]
      = map (\<lambda>i. real ((k div 2 ^ i) mod 2)) [0..<b] @ real (k div 2 ^ b mod 2) # drop (Suc b) x"
    by (simp add: list_update_append Cons_nth_drop_Suc [symmetric])
  moreover have "k div 2 ^ b div 2 = k div (2 * 2 ^ b)"
    by (simp add: div_mult2_eq [symmetric] mult.commute)
  ultimately show ?case
    using Suc b by (simp add: decode_step_def)
qed

lemma decode_loop_bits: "decode_loop n k = map (\<lambda>i. real ((k div 2 ^ i) mod 2)) [0..<n]"
  by (simp add: decode_loop_def decode_fold np_zeros_def)


lemma counts_loop_append:
  "counts_loop n d (xs @ ys) st
     = (case counts_loop n d xs st of Inl e \<Rightarrow> Inl e | Inr st' \<Rightarrow> counts_loop n d ys st')"
  by (induction xs arbitrary: st) (simp_all split: sum.splits)

lemma counts_step_exact:
  "dict_get d (binary_repr i n) 0 \<le> 2 ^ 53 \<Longrightarrow>
   counts_step n d i (tv, t)
     = Inr (tv[i := real (dict_get d (binary_repr i n) 0)], t + dict_get d (binary_repr i n) 0)"
proof -
  assume "dict_get d (binary_repr i n) 0 \<le> 2 ^ 53"
  then have "int (dict_get d (binary_repr i n) 0) \<le> int (2 ^ 53)"
    by (simp only: of_nat_le_iff)
  then have "\<bar>int (dict_get d (binary_repr i n) 0)\<bar> \<le> 2 ^ 53"
    by simp
  then show ?thesis
    by (simp add: counts_step_def Let_def float_of_python_int_def float64_of_int_exact)
qed

lemma counts_fold:
  "b \<le> length tv \<Longrightarrow> \<forall>i<b. dict_get d (binary_repr i n) 0 \<le> 2 ^ 53 \<Longrightarrow>
   counts_loop n d [0..<b] (tv, t)
     = Inr (map (\<lambda>i. real (dict_get d (binary_repr i n) 0)) [0..<b] @ drop b tv,
            t + sum_list (map (\<lambda>i. dict_get d (binary_repr i n) 0) [0..<b]))"
proof (induction b)
  case 0
  show ?case by simp
next
  case (Suc b)
  then have b: "b < length tv" by simp
  then have upd: "(map (\<lambda>i. real (dict_get d (binary_repr i n) 0)) [0..<b] @ drop b tv)
        [b := real (dict_get d (binary_repr b n) 0)]
      = map (\<lambda>i. real (dict_get d (binary_repr i n) 0)) [0..<b]
        @ real (dict_get d (binary_repr b n) 0) # drop (Suc b) tv"
    by (simp add: list_update_append Cons_nth_drop_Suc [symmetric])
  from Suc.prems have small: "dict_get d (binary_repr b n) 0 \<le> 2 ^ 53"
    by simp
  from Suc b have ih: "counts_loop n d [0..<b] (tv, t)
     = Inr (map (\<lambda>i. real (dict_get d (binary_repr i n) 0)) [0..<b] @ drop b tv,
            t + sum_list (map (\<lambda>i. dict_get d (binary_repr i n) 0) [0..<b]))"
    by simp
  show ?case
    by (simp add: counts_loop_append ih counts_step_exact [OF small] upd)
qed

lemma normalized_counts_exact:
  assumes "sum_list (map (\<lambda>i. dict_get d (binary_repr i n) 0) [0..<2 ^ n]) \<le> 2 ^ 53"
  shows "normalized_counts fdiv n d
    = Inr (map (\<lambda>i. np_divide fdiv (real (dict_get d (binary_repr i n) 0))
                 (real (sum_list (map (\<lambda>i. dict_get d (binary_repr i n) 0) [0..<2 ^ n]))))
             [0..<2 ^ n])"
proof -
  let ?c = "\<lambda>i. dict_get d (binary_repr i n) 0"
  let ?T = "sum_list (map ?c [0..<2 ^ n])"
  have "?c i \<le> 2 ^ 53" if "i < 2 ^ n" for i
  proof -
    from that have "?c i \<in> set (map ?c [0..<2 ^ n])"
      by simp
    then have "?c i \<le> ?T"
      by (intro member_le_sum_list) simp_all
    with assms show ?thesis
      by simp
  qed
  then have "counts_loop n d [0..<2 ^ n] (np_zeros (2 ^ n), 0)
      = Inr (map (\<lambda>i. real (?c i)) [0..<2 ^ n], ?T)"
    by (simp add: counts_fold np_zeros_def)
  moreover from assms have "int ?T \<le> int (2 ^ 53)"
    by (simp only: of_nat_le_iff)
  then have "\<bar>int ?T\<bar> \<le> 2 ^ 53"
    by simp
  then have "float_of_python_int (int ?T) = Inr (real ?T)"
    by (simp add: float_of_python_int_def float64_of_int_exact)
  ultimately show ?thesis
    by (simp add: normalized_counts_def comp_def)
qed

lemma normalized_counts_total_zero:
  assumes "sum_list (map (\<lambda>i. dict_get d (binary_repr i n) 0) [0..<2 ^ n]) = 0"
  shows "normalized_counts fdiv n d = Inr (replicate (2 ^ n) NaN)"
proof -
  let ?T = "sum_list (map (\<lambda>i. dict_get d (binary_repr i n) 0) [0..<2 ^ n])"
  from assms have zero: "\<forall>i<2 ^ n. dict_get d (binary_repr i n) 0 = 0"
    by simp
  have "?T \<le> 2 ^ 53"
    by (simp only: assms)
  then have "normalized_counts fdiv n d
      = Inr (map (\<lambda>i. np_divide fdiv (real (dict_get d (binary_repr i n) 0)) (real ?T))
               [0..<2 ^ n])"
    by (rule normalized_counts_exact)
  also have "map (\<lambda>i. np_divide fdiv (real (dict_get d (binary_repr i n) 0)) (real ?T)) [0..<2 ^ n]
      = map (\<lambda>i. np_divide fdiv (real (dict_get d (binary_repr i n) 0)) 0) [0..<2 ^ n]"
    by (simp only: assms of_nat_0)
  also have "\<dots> = map (\<lambda>i. NaN) [0..<2 ^ n]"
    using zero by (intro map_cong) (simp_all add: np_divide_def)
  also have "\<dots> = replicate (2 ^ n) NaN"
    by (simp add: map_replicate_const)
  finally show ?thesis .
qed

lemma np_argmax_all_NaN: "np_argmax (replicate (2 ^ n) NaN) = Inr 0"
proof -
  obtain m where "(2::nat) ^ n = Suc m"
    by (metis not0_implies_Suc power_not_zero zero_neq_numeral)
  then show ?thesis
    by (simp add: np_argmax_def argmax_loop_NaN)
qed

lemma decode_loop_zero: "decode_loop n 0 = replicate n 0"
  by (simp add: decode_loop_bits map_replicate_const)

lemma bin_digits_small: "i < 2 \<Longrightarrow> bin_digits i = [if i = 0 then CHR ''0'' else CHR ''1'']"
  by (subst bin_digits.simps) simp

lemma bin_digits_large:
  "\<not> i < 2 \<Longrightarrow>
   bin_digits i = bin_digits (i div 2) @ [if i mod 2 = 0 then CHR ''0'' else CHR ''1'']"
  by (subst bin_digits.simps) simp

lemma padded_bin_digits:
  "0 < m \<Longrightarrow> i < 2 ^ m \<Longrightarrow>
   length (bin_digits i) \<le> m
   \<and> replicate (m - length (bin_digits i)) CHR ''0'' @ bin_digits i
     = map (\<lambda>p. if (i div 2 ^ (m - 1 - p)) mod 2 = 1 then CHR ''1'' else CHR ''0'') [0..<m]"
proof (induction m arbitrary: i)
  case 0
  then show ?case by simp
next
  case (Suc m)
  show ?case
  proof (cases "m = 0")
    case True
    with Suc.prems have "i < 2" by simp
    then have "i = 0 \<or> i = 1" by auto
    with True show ?thesis by (auto simp: bin_digits_small)
  next
    case False
    then have m: "0 < m" by simp
    from Suc.prems have half: "i div 2 < 2 ^ m" by auto
    from Suc.IH [OF m half]
    have len: "length (bin_digits (i div 2)) \<le> m"
      and pad: "replicate (m - length (bin_digits (i div 2))) CHR ''0'' @ bin_digits (i div 2)
        = map (\<lambda>p. if ((i div 2) div 2 ^ (m - 1 - p)) mod 2 = 1 then CHR ''1'' else CHR ''0'')
            [0..<m]"
      by simp_all
    have shift: "(i div 2) div 2 ^ (m - 1 - p) = i div 2 ^ (m - p)" if "p < m" for p
    proof -
      from that have "m - p = Suc (m - 1 - p)" by simp
      then show ?thesis by (simp add: div_mult2_eq)
    qed
    have last: "(if i mod 2 = 0 then CHR ''0'' else CHR ''1'')
        = (if (i div 2 ^ (Suc m - 1 - m)) mod 2 = 1 then CHR ''1'' else CHR ''0'')"
      by simp
    have step: "length (bin_digits i) \<le> Suc m
      \<and> replicate (Suc m - length (bin_digits i)) CHR ''0'' @ bin_digits i
        = (replicate (m - length (bin_digits (i div 2))) CHR ''0'' @ bin_digits (i div 2))
          @ [if i mod 2 = 0 then CHR ''0'' else CHR ''1'']"
    proof (cases "i < 2")
      case True
      then have i: "i = 0 \<or> i = 1" by auto
      have z: "replicate (m - 1) CHR ''0'' @ [CHR ''0''] = replicate m CHR ''0''"
        using m by (metis Suc_pred' replicate_Suc replicate_append_same)
      from i z m show ?thesis by (auto simp: bin_digits_small Suc_diff_le)
    next
      case False
      then have "bin_digits i = bin_digits (i div 2) @ [if i mod 2 = 0 then CHR ''0'' else CHR ''1'']"
        by (rule bin_digits_large)
      with len show ?thesis by (simp add: Suc_diff_le)
    qed
    have "map (\<lambda>p. if (i div 2 ^ (Suc m - 1 - p)) mod 2 = 1 then CHR ''1'' else CHR ''0'') [0..<Suc m]
        = map (\<lambda>p. if ((i div 2) div 2 ^ (m - 1 - p)) mod 2 = 1 then CHR ''1'' else CHR ''0'') [0..<m]
          @ [if i mod 2 = 0 then CHR ''0'' else CHR ''1'']"
      using shift by (simp add: last)
    with step pad show ?thesis by simp
  qed
qed

lemma binary_repr_bits:
  assumes "0 < n" and "i < 2 ^ n"
  shows "binary_repr i n
    = map (\<lambda>p. if (i div 2 ^ (n - 1 - p)) mod 2 = 1 then CHR ''1'' else CHR ''0'') [0..<n]"
proof (cases "i = 0")
  case True
  have "map (\<lambda>p. CHR ''0'') [0..<n] = replicate n CHR ''0''"
    by (simp add: map_replicate_const)
  with True assms(1) show ?thesis
    by (simp add: binary_repr_def)
next
  case False
  from padded_bin_digits [OF assms]
  have "length (bin_digits i) \<le> n"
    and "replicate (n - length (bin_digits i)) CHR ''0'' @ bin_digits i
      = map (\<lambda>p. if (i div 2 ^ (n - 1 - p)) mod 2 = 1 then CHR ''1'' else CHR ''0'') [0..<n]"
    by simp_all
  with False show ?thesis
    by (simp add: binary_repr_def Let_def max_def)
qed


lemma np_argmax_first_max:
  assumes "k < length rs" and "\<forall>j<length rs. rs ! j \<le> rs ! k" and "\<forall>j<k. rs ! j < rs ! k"
  shows "np_argmax (map Fin rs) = Inr k"
proof -
  from assms(1) have "rs \<noteq> []"
    by auto
  then obtain k' where k': "np_argmax (map Fin rs) = Inr k'" "k' < length rs"
      "\<forall>j<length rs. rs ! j \<le> rs ! k'" "\<forall>j<k'. rs ! j < rs ! k'"
    using np_argmax_Fin [of rs] by blast
  have "k = k'"
    using assms k'(2-4) by (rule first_max_unique)
  with k'(1) show ?thesis
    by simp
qed













lemma sample_most_likely_counts_first_max:
  assumes "normalized_counts fdiv n d = Inr (map Fin q)"
    and "k < length q" and "\<forall>j<length q. \<bar>q ! j\<bar> \<le> \<bar>q ! k\<bar>" and "\<forall>j<k. \<bar>q ! j\<bar> < \<bar>q ! k\<bar>"
  shows "sample_most_likely absolute fdiv n (Counts d)
    = Inr (map (\<lambda>i. real ((k div 2 ^ i) mod 2)) [0..<n])"
proof -
  have e: "map np_abs (map Fin q) = map Fin (map abs q)"
    by simp
  have "np_argmax (map np_abs (map Fin q)) = Inr k"
    unfolding e using assms(2-4) by (intro np_argmax_first_max) simp_all
  with assms(1) show ?thesis
    by (simp add: sample_most_likely_def decode_loop_bits)
qed

text \<open>
  Claim C6. For a mapping input \<open>d\<close> the count looked up for index \<open>i\<close> is the value of \<open>d\<close>
  under the key \<open>binary_repr i n\<close>, or \<open>0\<close> when that key is absent; for \<open>n > 0\<close> this key
  is the \<open>n\<close>-character binary string of \<open>i\<close>, most significant bit first. Every entry of
  the dense vector of length \<open>2\<^sup>n\<close> is its count divided by the total of the counts, with
  no check of the total: when the total is not zero (and at most \<open>2\<^sup>5\<^sup>3\<close>, so that the
  counts and the total are float64 values themselves) entry \<open>i\<close> is the float64 quotient
  of count \<open>i\<close> by the total, and the index of the largest quotient is decoded; when the
  total is \<open>0\<close> every quotient is \<open>0/0\<close>, that is not-a-number, the vector of
  not-a-numbers goes into the selection of the maximum, no error is raised, and (numpy
  taking the first not-a-number as the maximum) the result decodes index \<open>0\<close>.
\<close>

theorem sample_most_likely_counts_unguarded_division:
  "(0 < n \<and> i < 2 ^ n \<longrightarrow>
      binary_repr i n
        = map (\<lambda>p. if (i div 2 ^ (n - 1 - p)) mod 2 = 1 then CHR ''1'' else CHR ''0'') [0..<n])
   \<and> (0 < (\<Sum>i\<leftarrow>[0..<2 ^ n]. case d (binary_repr i n) of None \<Rightarrow> 0 | Some c \<Rightarrow> c)
        \<and> (\<Sum>i\<leftarrow>[0..<2 ^ n]. case d (binary_repr i n) of None \<Rightarrow> 0 | Some c \<Rightarrow> c) \<le> 2 ^ 53
        \<longrightarrow> normalized_counts fdiv n d
              = Inr (map (\<lambda>i. fdiv (real (case d (binary_repr i n) of None \<Rightarrow> 0 | Some c \<Rightarrow> c))
                            (real (\<Sum>i\<leftarrow>[0..<2 ^ n]. case d (binary_repr i n) of
                                                     None \<Rightarrow> 0 | Some c \<Rightarrow> c)))
                       [0..<2 ^ n]))
   \<and> (normalized_counts fdiv n d = Inr (map Fin q)
        \<and> k < length q \<and> (\<forall>j<length q. \<bar>q ! j\<bar> \<le> \<bar>q ! k\<bar>) \<and> (\<forall>j<k. \<bar>q ! j\<bar> < \<bar>q ! k\<bar>)
        \<longrightarrow> sample_most_likely absolute fdiv n (Counts d)
              = Inr (map (\<lambda>i. real ((k div 2 ^ i) mod 2)) [0..<n]))
   \<and> ((\<Sum>i\<leftarrow>[0..<2 ^ n]. case d (binary_repr i n) of None \<Rightarrow> 0 | Some c \<Rightarrow> c) = 0 \<longrightarrow>
        normalized_counts fdiv n d = Inr (replicate (2 ^ n) NaN)
        \<and> sample_most_likely absolute fdiv n (Counts d) = Inr (replicate n 0))"
proof -
  let ?c = "\<lambda>i. case d (binary_repr i n) of None \<Rightarrow> 0 | Some c \<Rightarrow> c"
  let ?T = "\<Sum>i\<leftarrow>[0..<2 ^ n]. ?c i"
  have c: "dict_get d (binary_repr i n) 0 = ?c i" for i
    by (simp add: dict_get_def)
  have "binary_repr i n
      = map (\<lambda>p. if (i div 2 ^ (n - 1 - p)) mod 2 = 1 then CHR ''1'' else CHR ''0'') [0..<n]"
    if "0 < n \<and> i < 2 ^ n"
    using that by (intro binary_repr_bits) simp_all
  moreover have "normalized_counts fdiv n d
      = Inr (map (\<lambda>i. fdiv (real (?c i)) (real ?T)) [0..<2 ^ n])"
    if "0 < ?T \<and> ?T \<le> 2 ^ 53"
  proof -
    from that have "normalized_counts fdiv n d
        = Inr (map (\<lambda>i. np_divide fdiv (real (?c i)) (real ?T)) [0..<2 ^ n])"
      using normalized_counts_exact [of d n fdiv] by (simp only: c)
    moreover have "np_divide fdiv x (real ?T) = fdiv x (real ?T)" for x
    proof -
      from that have "?T \<noteq> 0"
        by linarith
      then have "real ?T \<noteq> 0"
        by (simp only: of_nat_eq_0_iff not_False_eq_True)
      then show ?thesis
        by (simp only: np_divide_def not_False_eq_True if_True)
    qed
    ultimately show ?thesis
      by (simp only:)
  qed
  moreover have "sample_most_likely absolute fdiv n (Counts d)
      = Inr (map (\<lambda>i. real ((k div 2 ^ i) mod 2)) [0..<n])"
    if "normalized_counts fdiv n d = Inr (map Fin q)
      \<and> k < length q \<and> (\<forall>j<length q. \<bar>q ! j\<bar> \<le> \<bar>q ! k\<bar>) \<and> (\<forall>j<k. \<bar>q ! j\<bar> < \<bar>q ! k\<bar>)"
    using that by (elim conjE) (rule sample_most_likely_counts_first_max)
  moreover have "normalized_counts fdiv n d = Inr (replicate (2 ^ n) NaN)
      \<and> sample_most_likely absolute fdiv n (Counts d) = Inr (replicate n 0)"
    if z: "?T = 0"
  proof -
    from z have "sum_list (map (\<lambda>i. dict_get d (binary_repr i n) 0) [0..<2 ^ n]) = 0"
      by (simp only: c)
    then have nan: "normalized_counts fdiv n d = Inr (replicate (2 ^ n) NaN)"
      by (rule normalized_counts_total_zero)
    then show ?thesis
      by (simp add: sample_most_likely_def np_argmax_all_NaN decode_loop_zero)
  qed
  ultimately show ?thesis
    by blast
qed

theorem sample_most_likely_counts_unguarded_division_witness:
  "(0::nat) < 2 \<and> (1::nat) < 2 ^ 2 \<and> binary_repr 1 2 = ''01''
   \<and> normalized_counts (\<lambda>x y. Fin (x / y)) 1 (Map.empty(''0'' \<mapsto> 1, ''1'' \<mapsto> 3))
       = Inr [Fin (1 / 4), Fin (3 / 4)]
   \<and> sample_most_likely (\<lambda>x :: real. Fin \<bar>x\<bar>) (\<lambda>x y. Fin (x / y)) 1
       (Counts (Map.empty(''0'' \<mapsto> 1, ''1'' \<mapsto> 3))) = Inr [1]
   \<and> normalized_counts (\<lambda>x y. Fin (x / y)) 1 Map.empty = Inr [NaN, NaN]
   \<and> sample_most_likely (\<lambda>x :: real. Fin \<bar>x\<bar>) (\<lambda>x y. Fin (x / y)) 1 (Counts Map.empty) = Inr [0]"
proof -
  let ?div = "\<lambda>x y :: real. Fin (x / y)"
  let ?abs = "\<lambda>x :: real. Fin \<bar>x\<bar>"
  let ?d = "Map.empty(''0'' \<mapsto> 1 :: nat, ''1'' \<mapsto> 3)"
  let ?e = "Map.empty :: string \<Rightarrow> nat option"
  note th = sample_most_likely_counts_unguarded_division
  have b: "(0::nat) < 2 \<and> (1::nat) < 2 ^ 2"
    by simp
  have "binary_repr 1 2
      = map (\<lambda>p. if ((1::nat) div 2 ^ (2 - 1 - p)) mod 2 = 1 then CHR ''1'' else CHR ''0'') [0..<2]"
    by (rule th [of 2 1, THEN conjunct1, THEN mp]) (rule b)
  also have "\<dots> = ''01''"
    by (simp add: upt_rec eval_nat_numeral)
  finally have r: "binary_repr 1 2 = ''01''" .
  have k0: "binary_repr 0 1 = ''0''" and k1: "binary_repr 1 1 = ''1''"
    by (simp_all add: binary_repr_def bin_digits_small)
  have idx: "[0..<2 ^ 1] = [0, 1 :: nat]"
    by (simp add: upt_rec)
  have t: "(\<Sum>i\<leftarrow>[0..<2 ^ 1]. case ?d (binary_repr i 1) of None \<Rightarrow> 0 | Some c \<Rightarrow> c) = 4"
    by (simp only: idx list.map sum_list.Cons sum_list.Nil k0 k1) simp
  have t0: "(\<Sum>i\<leftarrow>[0..<2 ^ 1]. case ?e (binary_repr i 1) of None \<Rightarrow> 0 | Some c \<Rightarrow> c) = 0"
    by simp
  have "normalized_counts ?div 1 ?d
      = Inr (map (\<lambda>i. Fin (real (case ?d (binary_repr i 1) of None \<Rightarrow> 0 | Some c \<Rightarrow> c)
                           / real (\<Sum>i\<leftarrow>[0..<2 ^ 1]. case ?d (binary_repr i 1) of
                                                    None \<Rightarrow> 0 | Some c \<Rightarrow> c)))
               [0..<2 ^ 1])"
    by (rule th [of 1 0 ?d ?div, THEN conjunct2, THEN conjunct1, THEN mp]) (simp only: t, simp)
  also have "map (\<lambda>i. Fin (real (case ?d (binary_repr i 1) of None \<Rightarrow> 0 | Some c \<Rightarrow> c)
                           / real (\<Sum>i\<leftarrow>[0..<2 ^ 1]. case ?d (binary_repr i 1) of
                                                    None \<Rightarrow> 0 | Some c \<Rightarrow> c)))
        [0..<2 ^ 1] = map Fin [1 / 4, 3 / 4]"
    by (simp only: t idx list.map k0 k1) simp
  finally have nc: "normalized_counts ?div 1 ?d = Inr (map Fin [1 / 4, 3 / 4])" .
  have k: "(1::nat) < length [1 / 4, 3 / 4 :: real]
      \<and> (\<forall>j<length [1 / 4, 3 / 4 :: real]. \<bar>[1 / 4, 3 / 4 :: real] ! j\<bar> \<le> \<bar>[1 / 4, 3 / 4] ! 1\<bar>)
      \<and> (\<forall>j<1. \<bar>[1 / 4, 3 / 4 :: real] ! j\<bar> < \<bar>[1 / 4, 3 / 4] ! 1\<bar>)"
    by (simp add: All_less_Suc eval_nat_numeral)
  have "sample_most_likely ?abs ?div 1 (Counts ?d)
      = Inr (map (\<lambda>i. real ((1 div 2 ^ i) mod 2)) [0..<1])"
    by (rule th [of 1 0 ?d ?div "[1 / 4, 3 / 4]" 1 ?abs,
          THEN conjunct2, THEN conjunct2, THEN conjunct1, THEN mp]) (intro conjI nc k [THEN conjunct1]
        k [THEN conjunct2, THEN conjunct1] k [THEN conjunct2, THEN conjunct2])
  then have s: "sample_most_likely ?abs ?div 1 (Counts ?d) = Inr [1]"
    by simp
  have "normalized_counts ?div 1 ?e = Inr (replicate (2 ^ 1) NaN)
      \<and> sample_most_likely ?abs ?div 1 (Counts ?e) = Inr (replicate 1 0)"
    by (rule th [of 1 0 ?e ?div "[]" 0 ?abs,
          THEN conjunct2, THEN conjunct2, THEN conjunct2, THEN mp]) (rule t0)
  then have z: "normalized_counts ?div 1 ?e = Inr [NaN, NaN]"
      "sample_most_likely ?abs ?div 1 (Counts ?e) = Inr [0]"
    by (simp_all add: eval_nat_numeral)
  from nc have nc': "normalized_counts ?div 1 ?d = Inr [Fin (1 / 4), Fin (3 / 4)]"
    by simp
  from b r nc' s z show ?thesis
    by (intro conjI) simp_all
qed

subsection \<open>Number files\<close>

lemma digit_cases:
  assumes "0 \<le> d" and "d < 10"
  shows "d = 0 \<or> d = 1 \<or> d = 2 \<or> d = 3 \<or> d = 4 \<or> d = 5 \<or> d = 6 \<or> d = 7 \<or> d = 8 \<or> d = (9::int)"
  using assms by arith

lemma digit_val_digit_char:
  assumes "0 \<le> d" and "d < 10"
  shows "digit_val (digit_char d) = Some d"
  using digit_cases [OF assms] by (auto simp: digit_val_def digit_char_def)

lemma digit_char_plain:
  assumes "0 \<le> d" and "d < 10"
  shows "\<not> is_space (digit_char d) \<and> digit_char d \<noteq> NL
    \<and> digit_char d \<noteq> CHR ''-'' \<and> digit_char d \<noteq> CHR ''+''"
  using digit_cases [OF assms] by (auto simp: digit_char_def is_space_def NL_def)

lemma digits_of_value:
  "0 \<le> m \<Longrightarrow>
   digits_of m \<noteq> []
   \<and> list_all (\<lambda>c. digit_val c \<noteq> None \<and> \<not> is_space c \<and> c \<noteq> NL \<and> c \<noteq> CHR ''-'' \<and> c \<noteq> CHR ''+'')
        (digits_of m)
   \<and> foldl (\<lambda>acc c. 10 * acc + the (digit_val c)) 0 (digits_of m) = m"
proof (induction m rule: digits_of.induct)
  case (1 m)
  show ?case
  proof (cases "m < 10")
    case True
    with "1.prems" digit_val_digit_char [of m] digit_char_plain [of m] show ?thesis
      by (subst (1 2 3) digits_of.simps) simp
  next
    case False
    then have d: "digits_of m = digits_of (m div 10) @ [digit_char (m mod 10)]"
      by (subst digits_of.simps) simp
    from False "1.prems" have "0 \<le> m div 10"
      by simp
    with "1.IH" False have ih: "digits_of (m div 10) \<noteq> []"
      "list_all (\<lambda>c. digit_val c \<noteq> None \<and> \<not> is_space c \<and> c \<noteq> NL \<and> c \<noteq> CHR ''-'' \<and> c \<noteq> CHR ''+'')
        (digits_of (m div 10))"
      "foldl (\<lambda>acc c. 10 * acc + the (digit_val c)) 0 (digits_of (m div 10)) = m div 10"
      by simp_all
    have r: "0 \<le> m mod 10" "m mod 10 < 10"
      by simp_all
    from ih digit_val_digit_char [OF r] digit_char_plain [OF r] show ?thesis
      by (simp add: d)
  qed
qed

lemma nat_literal_digits_of: "0 \<le> m \<Longrightarrow> nat_literal (digits_of m) = Some m"
  using digits_of_value [of m] by (auto simp: nat_literal_def list_all_iff)

lemma int_literal_format_int: "int_literal (format_int z) = Some z"
proof (cases "z < 0")
  case True
  then show ?thesis
    by (simp add: int_literal_def format_int_def nat_literal_digits_of)
next
  case False
  then have z: "0 \<le> z" by simp
  from digits_of_value [OF z] obtain c cs where cs: "digits_of z = c # cs"
    and "c \<noteq> CHR ''-''" "c \<noteq> CHR ''+''"
    by (cases "digits_of z") auto
  with False nat_literal_digits_of [OF z] show ?thesis
    by (simp add: int_literal_def format_int_def)
qed

lemma format_int_plain:
  "format_int z \<noteq> [] \<and> list_all (\<lambda>c. \<not> is_space c \<and> c \<noteq> NL) (format_int z)"
proof (cases "z < 0")
  case True
  then have "0 \<le> - z" by simp
  from digits_of_value [OF this] True show ?thesis
    by (auto simp: format_int_def list_all_iff is_space_def NL_def)
next
  case False
  then have "0 \<le> z" by simp
  from digits_of_value [OF this] False show ?thesis
    by (auto simp: format_int_def list_all_iff)
qed

lemma dropWhile_plain: "list_all (\<lambda>c. \<not> P c) s \<Longrightarrow> dropWhile P s = s"
  by (cases s) simp_all

lemma strip_line:
  assumes "list_all (\<lambda>c. \<not> is_space c) s"
  shows "strip (s @ [NL]) = s"
proof -
  have nl: "is_space NL"
    by (simp add: is_space_def NL_def)
  from assms have "list_all (\<lambda>c. \<not> is_space c) (rev s)"
    by (simp add: list_all_iff)
  then have "dropWhile is_space (rev s) = rev s"
    by (rule dropWhile_plain)
  moreover from assms have "list_all (\<lambda>c. \<not> is_space c) (s @ [NL]) \<or> s = [] \<or> \<not> is_space (hd s)"
    by (cases s) simp_all
  then have "dropWhile is_space (s @ [NL]) = (if s = [] then [] else s @ [NL])"
    using nl by (cases s) auto
  ultimately show ?thesis
    using nl by (simp add: strip_def)
qed

lemma py_float_written_line: "py_float other (format_int z @ [NL]) = Inr (float64_of_int z)"
proof -
  from format_int_plain [of z] have "list_all (\<lambda>c. \<not> is_space c) (format_int z)"
    by (simp add: list_all_iff)
  then have "strip (format_int z @ [NL]) = format_int z"
    by (rule strip_line)
  then show ?thesis
    by (simp add: py_float_def int_literal_format_int)
qed

lemma round_half_even_of_int: "round_half_even (of_int z) = z"
  by (simp add: round_half_even_def Let_def)

lemma round_half_even_fixed: "(of_int (round_half_even r) = r) = (r \<in> \<int>)"
proof
  assume "of_int (round_half_even r) = r"
  then show "r \<in> \<int>"
    by (metis Ints_of_int)
next
  assume "r \<in> \<int>"
  then obtain k where "r = of_int k"
    by (auto elim: Ints_cases)
  then show "of_int (round_half_even r) = r"
    by (simp add: round_half_even_of_int)
qed

lemma file_lines_line: "list_all (\<lambda>c. c \<noteq> NL) l \<Longrightarrow> file_lines (l @ NL # rest) = (l @ [NL]) # file_lines rest"
  by (induction l) simp_all

lemma file_lines_written:
  "list_all (\<lambda>l. list_all (\<lambda>c. c \<noteq> NL) l) ls \<Longrightarrow>
   file_lines (concat (map (\<lambda>l. l @ [NL]) ls)) = map (\<lambda>l. l @ [NL]) ls"
  by (induction ls) (simp_all add: file_lines_line)

lemma write_fold:
  "k \<le> length number_list \<Longrightarrow>
   fold (write_line number_list) [0..<k] outfile
     = outfile @ concat (map (\<lambda>v. format_int v @ [NL]) (take k number_list))"
proof (induction k)
  case 0
  show ?case by simp
next
  case (Suc k)
  then show ?case
    by (simp add: write_line_def take_Suc_conv_app_nth)
qed

lemma read_lines_written:
  "list_all (\<lambda>v. \<bar>v\<bar> \<le> 2 ^ 53) vs \<Longrightarrow>
   read_lines other (map (\<lambda>v. format_int v @ [NL]) vs) numbers = Inr (numbers @ vs)"
  by (induction vs arbitrary: numbers)
     (simp_all add: py_float_written_line float64_of_int_exact round_half_even_of_int)

lemma read_lines_finite:
  "list_all (\<lambda>l. line_value other l \<noteq> None) ls \<Longrightarrow>
   read_lines other ls numbers
     = (if list_all (\<lambda>l. the (line_value other l) \<in> \<int>) ls
        then Inr (numbers @ map (\<lambda>l. round_half_even (the (line_value other l))) ls)
        else Inl AssertionError)"
proof (induction ls arbitrary: numbers)
  case Nil
  show ?case by simp
next
  case (Cons l ls)
  from Cons.prems obtain r where r: "py_float other l = Inr (Fin r)"
    by (auto simp: line_value_def split: sum.splits npfloat.splits)
  then have v: "line_value other l = Some r"
    by (simp add: line_value_def)
  from Cons.prems have rest: "list_all (\<lambda>l. line_value other l \<noteq> None) ls"
    by simp
  show ?case
    by (simp add: r v Cons.IH [OF rest] round_half_even_fixed)
qed

lemma read_lines_result:
  "read_lines other ls numbers = Inr ns \<Longrightarrow>
   \<exists>ks. ns = numbers @ ks \<and> length ks = length ls
     \<and> (\<forall>i<length ls. py_float other (ls ! i) = Inr (Fin (of_int (ks ! i))))"
proof (induction ls arbitrary: numbers)
  case Nil
  then show ?case by simp
next
  case (Cons l ls)
  from Cons.prems obtain x k where x: "py_float other l = Inr x" and k: "py_round x = Inr k"
    and eq: "Fin (of_int k) = x" and rest: "read_lines other ls (numbers @ [k]) = Inr ns"
    by (auto split: sum.splits if_splits)
  from Cons.IH [OF rest] obtain ks where ks: "ns = (numbers @ [k]) @ ks" "length ks = length ls"
    "\<forall>i<length ls. py_float other (ls ! i) = Inr (Fin (of_int (ks ! i)))"
    by blast
  have "ns = numbers @ (k # ks) \<and> length (k # ks) = length (l # ls)
    \<and> (\<forall>i<length (l # ls). py_float other ((l # ls) ! i) = Inr (Fin (of_int ((k # ks) ! i))))"
    using ks x eq by (auto simp: nth_Cons split: nat.splits)
  then show ?case
    by blast
qed

lemma digits_of_power_of_ten: "digits_of (10 ^ k) = CHR ''1'' # replicate k (CHR ''0'')"
proof (induction k)
  case 0
  show ?case
    by (subst digits_of.simps) (simp add: digit_char_def)
next
  case (Suc k)
  have "(1 :: int) \<le> 10 ^ k"
    by (rule one_le_power) simp
  then have "\<not> (10 :: int) * 10 ^ k < 10"
    by linarith
  then have "\<not> (10 :: int) ^ Suc k < 10"
    by simp
  then have "digits_of (10 ^ Suc k)
      = digits_of ((10 ^ Suc k) div 10) @ [digit_char ((10 ^ Suc k) mod 10)]"
    by (subst digits_of.simps) (simp only: if_False)
  also have "\<dots> = digits_of (10 ^ k) @ [CHR ''0'']"
    by (simp add: digit_char_def)
  finally show ?case
    by (simp add: Suc.IH replicate_append_same)
qed

lemma read_lines_first_failure:
  assumes "list_all (\<lambda>p. line_value other p \<noteq> None \<and> the (line_value other p) \<in> \<int>) pre"
    and "\<not> (line_value other l \<noteq> None \<and> the (line_value other l) \<in> \<int>)"
  shows "read_lines other (pre @ l # post) numbers
    = Inl (case py_float other l of
             Inl e \<Rightarrow> e
           | Inr x \<Rightarrow> (case x of Fin r \<Rightarrow> AssertionError | NaN \<Rightarrow> ValueError
                      | PosInf \<Rightarrow> OverflowError | NegInf \<Rightarrow> OverflowError))"
  using assms(1)
proof (induction pre arbitrary: numbers)
  case Nil
  show ?case
  proof (cases "py_float other l")
    case (Inl e)
    then show ?thesis by simp
  next
    case (Inr x)
    show ?thesis
    proof (cases x)
      case (Fin r)
      with Inr assms(2) have "r \<notin> \<int>"
        by (simp add: line_value_def)
      then have "of_int (round_half_even r) \<noteq> r"
        by (simp add: round_half_even_fixed)
      with Inr Fin show ?thesis by simp
    qed (simp_all add: Inr)
  qed
next
  case (Cons p pre)
  from Cons.prems obtain r where r: "py_float other p = Inr (Fin r)" and i: "r \<in> \<int>"
    by (auto simp: line_value_def split: sum.splits npfloat.splits)
  from i have k: "of_int (round_half_even r) = r"
    by (simp add: round_half_even_fixed)
  from Cons.prems have "list_all (\<lambda>p. line_value other p \<noteq> None \<and> the (line_value other p) \<in> \<int>) pre"
    by simp
  from Cons.IH [OF this] show ?case
    by (simp add: r k)
qed

text \<open>
  Claim C8, as the code has it. \<open>read_numbers_from_file\<close> parses every line as a float
  and returns the values rounded to integers. Whenever it returns a list, the list has
  one entry per line and every line's value is that integer, so a line whose value is
  not an integer makes the call fail with nothing returned. When every line parses to a
  finite float, the call returns the rounded values if all of them are integers and
  fails with \<open>AssertionError\<close> otherwise. In general the call fails at the first line
  that does not parse to a finite integer value: with the error of \<open>float\<close>
  (\<open>ValueError\<close>) when that line does not parse, with \<open>AssertionError\<close> when its value is
  finite and not an integer, with \<open>ValueError\<close> when its value is not-a-number and with
  \<open>OverflowError\<close> when its value is infinite.
\<close>

theorem read_numbers_from_file_requires_integer_values:
  assumes "fs filename = Some infile"
  shows "(read_numbers_from_file other fs filename = Inr ns \<longrightarrow>
            length ns = length (file_lines infile)
            \<and> (\<forall>i<length ns. py_float other (file_lines infile ! i) = Inr (Fin (of_int (ns ! i)))))
    \<and> (list_all (\<lambda>l. line_value other l \<noteq> None) (file_lines infile) \<longrightarrow>
          read_numbers_from_file other fs filename
            = (if list_all (\<lambda>l. the (line_value other l) \<in> \<int>) (file_lines infile)
               then Inr (map (\<lambda>l. round_half_even (the (line_value other l))) (file_lines infile))
               else Inl AssertionError))
    \<and> (file_lines infile = pre @ l # post
        \<and> list_all (\<lambda>p. line_value other p \<noteq> None \<and> the (line_value other p) \<in> \<int>) pre
        \<and> \<not> (line_value other l \<noteq> None \<and> the (line_value other l) \<in> \<int>) \<longrightarrow>
          read_numbers_from_file other fs filename
            = Inl (case py_float other l of
                     Inl e \<Rightarrow> e
                   | Inr x \<Rightarrow> (case x of Fin r \<Rightarrow> AssertionError | NaN \<Rightarrow> ValueError
                              | PosInf \<Rightarrow> OverflowError | NegInf \<Rightarrow> OverflowError)))"
proof -
  have "length ns = length (file_lines infile)
      \<and> (\<forall>i<length ns. py_float other (file_lines infile ! i) = Inr (Fin (of_int (ns ! i))))"
    if "read_numbers_from_file other fs filename = Inr ns"
  proof -
    from that assms have "read_lines other (file_lines infile) [] = Inr ns"
      by (simp add: read_numbers_from_file_def)
    from read_lines_result [OF this] show ?thesis
      by auto
  qed
  moreover have "read_numbers_from_file other fs filename
      = (if list_all (\<lambda>l. the (line_value other l) \<in> \<int>) (file_lines infile)
         then Inr (map (\<lambda>l. round_half_even (the (line_value other l))) (file_lines infile))
         else Inl AssertionError)"
    if "list_all (\<lambda>l. line_value other l \<noteq> None) (file_lines infile)"
    using read_lines_finite [OF that, of "[]"] assms
    by (simp add: read_numbers_from_file_def)
  moreover have "read_numbers_from_file other fs filename
      = Inl (case py_float other l of
               Inl e \<Rightarrow> e
             | Inr x \<Rightarrow> (case x of Fin r \<Rightarrow> AssertionError | NaN \<Rightarrow> ValueError
                        | PosInf \<Rightarrow> OverflowError | NegInf \<Rightarrow> OverflowError))"
    if "file_lines infile = pre @ l # post
        \<and> list_all (\<lambda>p. line_value other p \<noteq> None \<and> the (line_value other p) \<in> \<int>) pre
        \<and> \<not> (line_value other l \<noteq> None \<and> the (line_value other l) \<in> \<int>)"
  proof -
    from that have s: "file_lines infile = pre @ l # post"
      and g: "list_all (\<lambda>p. line_value other p \<noteq> None \<and> the (line_value other p) \<in> \<int>) pre"
      and b: "\<not> (line_value other l \<noteq> None \<and> the (line_value other l) \<in> \<int>)"
      by (rule conjunct1, rule conjunct2 [THEN conjunct1], rule conjunct2 [THEN conjunct2])
    from assms show ?thesis
      by (simp only: read_numbers_from_file_def option.case s read_lines_first_failure [OF g b])
  qed
  ultimately show ?thesis
    by blast
qed

theorem read_numbers_from_file_requires_integer_values_witness:
  "read_numbers_from_file (\<lambda>s. if s = ''1.5\<newline>'' then Inr (Fin (3 / 2)) else Inl ValueError)
      (Map.empty(''f'' \<mapsto> ''3\<newline>1.5\<newline>'')) ''f'' = Inl AssertionError
   \<and> read_numbers_from_file (\<lambda>s. Inl ValueError)
      (Map.empty(''g'' \<mapsto> ''3\<newline>4\<newline>'')) ''g'' = Inr [3, 4]
   \<and> read_numbers_from_file (\<lambda>s. if s = ''1.5\<newline>'' then Inr (Fin (3 / 2)) else Inl ValueError)
      (Map.empty(''h'' \<mapsto> ''3\<newline>abc\<newline>1.5\<newline>'')) ''h'' = Inl ValueError"
proof -
  let ?other = "\<lambda>s. if s = ''1.5\<newline>'' then Inr (Fin (3 / 2)) else Inl ValueError"
  have f3: "format_int 3 = ''3''" and f4: "format_int 4 = ''4''"
    by (simp_all add: format_int_def digits_of.simps digit_char_def)
  have p3: "py_float other ''3\<newline>'' = Inr (Fin 3)" for other
    using py_float_written_line [of other 3] by (simp add: f3 float64_of_int_exact NL_def)
  have p4: "py_float other ''4\<newline>'' = Inr (Fin 4)" for other
    using py_float_written_line [of other 4] by (simp add: f4 float64_of_int_exact NL_def)
  have p15: "py_float ?other ''1.5\<newline>'' = Inr (Fin (3 / 2))"
    by (simp add: py_float_def strip_def is_space_def int_literal_def nat_literal_def
        digit_val_def)
  have pabc: "py_float ?other ''abc\<newline>'' = Inl ValueError"
    by (simp add: py_float_def strip_def is_space_def int_literal_def nat_literal_def
        digit_val_def)
  have half: "(3 / 2 :: real) \<notin> \<int>"
  proof
    assume "(3 / 2 :: real) \<in> \<int>"
    then obtain k :: int where "(3 / 2 :: real) = of_int k"
      by (auto elim: Ints_cases)
    then have "(3 :: real) = of_int (2 * k)"
      by simp
    then have "(3 :: int) = 2 * k"
      by (metis of_int_eq_iff of_int_numeral)
    then show False
      by presburger
  qed
  have lf: "file_lines ''3\<newline>1.5\<newline>'' = [''3\<newline>'', ''1.5\<newline>'']"
    and lg: "file_lines ''3\<newline>4\<newline>'' = [''3\<newline>'', ''4\<newline>'']"
    and lh: "file_lines ''3\<newline>abc\<newline>1.5\<newline>'' = [''3\<newline>'', ''abc\<newline>'', ''1.5\<newline>'']"
    by (simp_all add: NL_def)
  have r3: "round_half_even 3 = 3" and r4: "round_half_even 4 = 4"
    using round_half_even_of_int [of 3] round_half_even_of_int [of 4] by simp_all
  have v3: "line_value other ''3\<newline>'' = Some 3" for other
    by (simp only: line_value_def p3 sum.case npfloat.case)
  have v4: "line_value other ''4\<newline>'' = Some 4" for other
    by (simp only: line_value_def p4 sum.case npfloat.case)
  have v15: "line_value ?other ''1.5\<newline>'' = Some (3 / 2)"
    by (simp only: line_value_def p15 sum.case npfloat.case)
  have vabc: "line_value ?other ''abc\<newline>'' = None"
    by (simp only: line_value_def pabc sum.case)
  have hf: "list_all (\<lambda>l. line_value ?other l \<noteq> None) (file_lines ''3\<newline>1.5\<newline>'')"
    unfolding lf by (simp add: v3 v15 del: not_None_eq)
  have nf: "\<not> list_all (\<lambda>l. the (line_value ?other l) \<in> \<int>) (file_lines ''3\<newline>1.5\<newline>'')"
    unfolding lf using half by (simp add: v3 v15)
  have hg: "list_all (\<lambda>l. line_value (\<lambda>s. Inl ValueError) l \<noteq> None) (file_lines ''3\<newline>4\<newline>'')"
    unfolding lg by (simp add: v3 v4 del: not_None_eq)
  have ig: "list_all (\<lambda>l. the (line_value (\<lambda>s. Inl ValueError) l) \<in> \<int>) (file_lines ''3\<newline>4\<newline>'')"
    unfolding lg by (simp add: v3 v4)
  have mg: "map (\<lambda>l. round_half_even (the (line_value (\<lambda>s. Inl ValueError) l)))
      (file_lines ''3\<newline>4\<newline>'') = [3, 4]"
    by (simp only: lg list.map v3 v4 option.sel r3 r4)
  have h1: "file_lines ''3\<newline>abc\<newline>1.5\<newline>'' = [''3\<newline>''] @ ''abc\<newline>'' # [''1.5\<newline>'']"
    unfolding lh by simp
  have h2: "list_all (\<lambda>p. line_value ?other p \<noteq> None \<and> the (line_value ?other p) \<in> \<int>) [''3\<newline>'']"
    by (simp add: v3 del: not_None_eq)
  have h3: "\<not> (line_value ?other ''abc\<newline>'' \<noteq> None \<and> the (line_value ?other ''abc\<newline>'') \<in> \<int>)"
    by (simp only: vabc not_False_eq_True not_True_eq_False simp_thms)
  note hh = conjI [OF h1 conjI [OF h2 h3]]
  have sf: "(Map.empty(''f'' \<mapsto> ''3\<newline>1.5\<newline>'')) ''f'' = Some ''3\<newline>1.5\<newline>''"
    and sg: "(Map.empty(''g'' \<mapsto> ''3\<newline>4\<newline>'')) ''g'' = Some ''3\<newline>4\<newline>''"
    and sh: "(Map.empty(''h'' \<mapsto> ''3\<newline>abc\<newline>1.5\<newline>'')) ''h'' = Some ''3\<newline>abc\<newline>1.5\<newline>''"
    by simp_all
  note th = read_numbers_from_file_requires_integer_values
  from th [of "Map.empty(''f'' \<mapsto> ''3\<newline>1.5\<newline>'')" "''f''" "''3\<newline>1.5\<newline>''" ?other,
      OF sf, THEN conjunct2, THEN conjunct1, THEN mp, OF hf]
  have a: "read_numbers_from_file ?other (Map.empty(''f'' \<mapsto> ''3\<newline>1.5\<newline>'')) ''f''
      = Inl AssertionError"
    by (simp only: nf if_False)
  from th [of "Map.empty(''g'' \<mapsto> ''3\<newline>4\<newline>'')" "''g''" "''3\<newline>4\<newline>''" "\<lambda>s. Inl ValueError",
      OF sg, THEN conjunct2, THEN conjunct1, THEN mp, OF hg]
  have b: "read_numbers_from_file (\<lambda>s. Inl ValueError) (Map.empty(''g'' \<mapsto> ''3\<newline>4\<newline>'')) ''g''
      = Inr [3, 4]"
    by (simp only: ig if_True mg)
  from th [of "Map.empty(''h'' \<mapsto> ''3\<newline>abc\<newline>1.5\<newline>'')" "''h''" "''3\<newline>abc\<newline>1.5\<newline>''",
      OF sh, THEN conjunct2, THEN conjunct2, THEN mp, OF hh]
  have c: "read_numbers_from_file ?other (Map.empty(''h'' \<mapsto> ''3\<newline>abc\<newline>1.5\<newline>'')) ''h''
      = Inl ValueError"
    by (simp only: pabc sum.case)
  from a b c show ?thesis
    by (intro conjI)
qed

text \<open>
  Claim C8 as stated promises an assertion failure whenever some line's value is not an
  integer. A line holding the digits of \<open>10\<^sup>3\<^sup>0\<^sup>9\<close> parses to the float infinity, and
  \<open>round\<close> raises \<open>OverflowError\<close> before the comparison is made; a line that does not
  parse raises \<open>ValueError\<close> before the non-integer line after it is read; and a line
  that parses to not-a-number makes \<open>round\<close> raise \<open>ValueError\<close>. (\<open>float\<close> is given here
  what Python answers on \<open>1.5\<close>, \<open>abc\<close> and \<open>nan\<close>.)
\<close>

theorem read_numbers_from_file_assertion_counterexample:
  "py_float (\<lambda>s. Inl ValueError) (CHR ''1'' # replicate 309 (CHR ''0'') @ [NL]) = Inr PosInf
   \<and> read_numbers_from_file (\<lambda>s. Inl ValueError)
       (Map.empty(''f'' \<mapsto> CHR ''1'' # replicate 309 (CHR ''0'') @ [NL])) ''f'' = Inl OverflowError
   \<and> read_numbers_from_file (\<lambda>s. if s = ''1.5\<newline>'' then Inr (Fin (3 / 2)) else Inl ValueError)
       (Map.empty(''f'' \<mapsto> ''abc\<newline>1.5\<newline>'')) ''f'' = Inl ValueError
   \<and> read_numbers_from_file (\<lambda>s. if s = ''nan\<newline>'' then Inr NaN else Inl ValueError)
       (Map.empty(''f'' \<mapsto> ''nan\<newline>'')) ''f'' = Inl ValueError"
proof -
  have f: "format_int (10 ^ 309) = CHR ''1'' # replicate 309 (CHR ''0'')"
    by (simp only: format_int_def digits_of_power_of_ten) simp
  have r: "float64_of_int (10 ^ 309) = PosInf"
    by code_simp
  from py_float_written_line [of "\<lambda>s. Inl ValueError" "10 ^ 309"]
  have p: "py_float (\<lambda>s. Inl ValueError) (CHR ''1'' # replicate 309 (CHR ''0'') @ [NL]) = Inr PosInf"
    by (simp only: f r append_Cons)
  have "list_all (\<lambda>c. c \<noteq> NL) (format_int (10 ^ 309))"
    using format_int_plain [of "10 ^ 309"] by (simp add: list_all_iff)
  from file_lines_line [OF this, of "[]"]
  have l: "file_lines (CHR ''1'' # replicate 309 (CHR ''0'') @ [NL])
      = [CHR ''1'' # replicate 309 (CHR ''0'') @ [NL]]"
    by (simp only: f file_lines.simps(1) append_Cons append_Nil)
  have a: "read_numbers_from_file (\<lambda>s. Inl ValueError)
      (Map.empty(''f'' \<mapsto> CHR ''1'' # replicate 309 (CHR ''0'') @ [NL])) ''f'' = Inl OverflowError"
    by (simp only: read_numbers_from_file_def fun_upd_same option.case l read_lines.simps p
        sum.case py_round.simps)
  have "py_float (\<lambda>s. if s = ''1.5\<newline>'' then Inr (Fin (3 / 2)) else Inl ValueError) ''abc\<newline>''
      = Inl ValueError"
    by (simp add: py_float_def strip_def is_space_def int_literal_def nat_literal_def
        digit_val_def)
  moreover have "file_lines ''abc\<newline>1.5\<newline>'' = [''abc\<newline>'', ''1.5\<newline>'']"
    by (simp add: NL_def)
  ultimately have b: "read_numbers_from_file
      (\<lambda>s. if s = ''1.5\<newline>'' then Inr (Fin (3 / 2)) else Inl ValueError)
      (Map.empty(''f'' \<mapsto> ''abc\<newline>1.5\<newline>'')) ''f'' = Inl ValueError"
    by (simp only: read_numbers_from_file_def fun_upd_same option.case read_lines.simps sum.case)
  have "py_float (\<lambda>s. if s = ''nan\<newline>'' then Inr NaN else Inl ValueError) ''nan\<newline>'' = Inr NaN"
    by (simp add: py_float_def strip_def is_space_def int_literal_def nat_literal_def
        digit_val_def)
  moreover have "file_lines ''nan\<newline>'' = [''nan\<newline>'']"
    by (simp add: NL_def)
  ultimately have c: "read_numbers_from_file
      (\<lambda>s. if s = ''nan\<newline>'' then Inr NaN else Inl ValueError)
      (Map.empty(''f'' \<mapsto> ''nan\<newline>'')) ''f'' = Inl ValueError"
    by (simp only: read_numbers_from_file_def fun_upd_same option.case read_lines.simps sum.case
        py_round.simps)
  from p a b c show ?thesis
    by (intro conjI)
qed

lemma np_random_randint_range:
  assumes "0 \<le> n" and "1 \<le> w" and "w < 2 ^ 63"
  shows "np_random_randint rng 1 (w + 1) n = Inr (map (\<lambda>i. 1 + rng i mod w) [0..<nat n])"
  using assms by (simp add: np_random_randint_def)

text \<open>
  Claim C9, as the code has it. For \<open>n \<ge> 0\<close> and \<open>1 \<le> weight_range < 2\<^sup>6\<^sup>3\<close>,
  \<open>random_number_list\<close> returns \<open>n\<close> integers, each in \<open>[1, weight_range]\<close>; with a
  non-empty \<open>savefile\<close> path the file written has exactly \<open>n\<close> lines, line \<open>i\<close> being the
  decimal digits of value \<open>i\<close>; and \<open>read_numbers_from_file\<close> on that file returns the
  same sequence when every value is at most \<open>2\<^sup>5\<^sup>3\<close>, in particular when
  \<open>weight_range \<le> 2\<^sup>5\<^sup>3\<close>. For \<open>n > 0\<close> and \<open>weight_range \<ge> 2\<^sup>6\<^sup>3\<close> the bound
  \<open>weight_range + 1\<close> is outside int64 and the call raises \<open>ValueError\<close>.
\<close>

theorem random_number_list_round_trip:
  "(0 \<le> n \<and> 1 \<le> w \<and> w < 2 ^ 63 \<and> path \<noteq> [] \<longrightarrow>
      random_number_list rng n w None fs = Inr (map (\<lambda>i. 1 + rng i mod w) [0..<nat n], fs)
      \<and> random_number_list rng n w (Some path) fs
          = Inr (map (\<lambda>i. 1 + rng i mod w) [0..<nat n],
                 fs(path \<mapsto> concat (map (\<lambda>v. format_int v @ [NL])
                                     (map (\<lambda>i. 1 + rng i mod w) [0..<nat n]))))
      \<and> int (length (map (\<lambda>i. 1 + rng i mod w) [0..<nat n])) = n
      \<and> list_all (\<lambda>v. 1 \<le> v \<and> v \<le> w) (map (\<lambda>i. 1 + rng i mod w) [0..<nat n])
      \<and> file_lines (concat (map (\<lambda>v. format_int v @ [NL])
                              (map (\<lambda>i. 1 + rng i mod w) [0..<nat n])))
          = map (\<lambda>v. format_int v @ [NL]) (map (\<lambda>i. 1 + rng i mod w) [0..<nat n])
      \<and> (list_all (\<lambda>v. v \<le> 2 ^ 53) (map (\<lambda>i. 1 + rng i mod w) [0..<nat n]) \<longrightarrow>
            read_numbers_from_file other
              (fs(path \<mapsto> concat (map (\<lambda>v. format_int v @ [NL])
                                  (map (\<lambda>i. 1 + rng i mod w) [0..<nat n])))) path
              = Inr (map (\<lambda>i. 1 + rng i mod w) [0..<nat n]))
      \<and> (w \<le> 2 ^ 53 \<longrightarrow>
            read_numbers_from_file other
              (fs(path \<mapsto> concat (map (\<lambda>v. format_int v @ [NL])
                                  (map (\<lambda>i. 1 + rng i mod w) [0..<nat n])))) path
              = Inr (map (\<lambda>i. 1 + rng i mod w) [0..<nat n])))
   \<and> (0 < n \<and> 2 ^ 63 \<le> w \<longrightarrow> random_number_list rng n w savefile fs = Inl ValueError)"
proof -
  define drawn where "drawn = map (\<lambda>i. 1 + rng i mod w) [0..<nat n]"
  have main: "random_number_list rng n w None fs = Inr (drawn, fs)
      \<and> random_number_list rng n w (Some path) fs
          = Inr (drawn, fs(path \<mapsto> concat (map (\<lambda>v. format_int v @ [NL]) drawn)))
      \<and> int (length drawn) = n
      \<and> list_all (\<lambda>v. 1 \<le> v \<and> v \<le> w) drawn
      \<and> file_lines (concat (map (\<lambda>v. format_int v @ [NL]) drawn))
          = map (\<lambda>v. format_int v @ [NL]) drawn
      \<and> (list_all (\<lambda>v. v \<le> 2 ^ 53) drawn \<longrightarrow>
            read_numbers_from_file other
              (fs(path \<mapsto> concat (map (\<lambda>v. format_int v @ [NL]) drawn))) path = Inr drawn)
      \<and> (w \<le> 2 ^ 53 \<longrightarrow>
            read_numbers_from_file other
              (fs(path \<mapsto> concat (map (\<lambda>v. format_int v @ [NL]) drawn))) path = Inr drawn)"
    if h: "0 \<le> n \<and> 1 \<le> w \<and> w < 2 ^ 63 \<and> path \<noteq> []"
  proof -
    from h have n: "0 \<le> n" and w: "1 \<le> w" and b: "w < 2 ^ 63" and p: "path \<noteq> []"
      by simp_all
    have draw: "np_random_randint rng 1 (w + 1) n = Inr drawn"
      unfolding drawn_def by (rule np_random_randint_range [OF n w b])
    from n have len: "int (length drawn) = n"
      by (simp add: drawn_def)
    have range: "list_all (\<lambda>v. 1 \<le> v \<and> v \<le> w) drawn"
    proof -
      have "1 \<le> 1 + rng i mod w \<and> 1 + rng i mod w \<le> w" for i
      proof -
        from w have "0 \<le> rng i mod w" and "rng i mod w < w"
          by simp_all
        then show ?thesis
          by simp
      qed
      then show ?thesis
        by (simp add: drawn_def list_all_iff)
    qed
    from len have "nat n = length drawn"
      by simp
    then have written: "fold (write_line drawn) [0..<nat n] []
        = concat (map (\<lambda>v. format_int v @ [NL]) drawn)"
      by (simp add: write_fold)
    have lines: "file_lines (concat (map (\<lambda>v. format_int v @ [NL]) drawn))
        = map (\<lambda>v. format_int v @ [NL]) drawn"
    proof -
      have "list_all (\<lambda>l. list_all (\<lambda>c. c \<noteq> NL) l) (map format_int drawn)"
        using format_int_plain by (auto simp: list_all_iff)
      from file_lines_written [OF this] show ?thesis
        by (simp add: comp_def)
    qed
    have read: "read_numbers_from_file other
        (fs(path \<mapsto> concat (map (\<lambda>v. format_int v @ [NL]) drawn))) path = Inr drawn"
      if "list_all (\<lambda>v. v \<le> 2 ^ 53) drawn"
    proof -
      from that range have "list_all (\<lambda>v. \<bar>v\<bar> \<le> 2 ^ 53) drawn"
        by (auto simp: list_all_iff)
      then show ?thesis
        by (simp add: read_numbers_from_file_def lines read_lines_written)
    qed
    have small: "list_all (\<lambda>v. v \<le> 2 ^ 53) drawn" if "w \<le> 2 ^ 53"
      using that range by (auto simp: list_all_iff)
    have r1: "random_number_list rng n w None fs = Inr (drawn, fs)"
      by (simp add: random_number_list_def draw)
    have r2: "random_number_list rng n w (Some path) fs
        = Inr (drawn, fs(path \<mapsto> concat (map (\<lambda>v. format_int v @ [NL]) drawn)))"
      using p by (simp add: random_number_list_def draw written)
    from r1 r2 len range lines read small show ?thesis
      by blast
  qed
  have err: "random_number_list rng n w savefile fs = Inl ValueError" if "0 < n \<and> 2 ^ 63 \<le> w"
    using that by (simp add: random_number_list_def np_random_randint_def)
  from main err show ?thesis
    unfolding drawn_def by blast
qed

theorem random_number_list_round_trip_witness:
  "(0::int) \<le> 3 \<and> (1::int) \<le> 100 \<and> (100::int) < 2 ^ 63 \<and> ''f'' \<noteq> []
   \<and> random_number_list (\<lambda>i. 4 + 7 * int i) 3 100 (Some ''f'') Map.empty
       = Inr ([5, 12, 19], Map.empty(''f'' \<mapsto> ''5\<newline>12\<newline>19\<newline>''))
   \<and> read_numbers_from_file (\<lambda>s. Inl ValueError) (Map.empty(''f'' \<mapsto> ''5\<newline>12\<newline>19\<newline>'')) ''f''
       = Inr [5, 12, 19]
   \<and> file_lines ''5\<newline>12\<newline>19\<newline>'' = [''5\<newline>'', ''12\<newline>'', ''19\<newline>'']
   \<and> random_number_list (\<lambda>i. 4 + 7 * int i) 3 (2 ^ 63) (Some ''f'') Map.empty = Inl ValueError"
proof -
  let ?rng = "\<lambda>i. 4 + 7 * int i"
  have h: "(0::int) \<le> 3 \<and> (1::int) \<le> 100 \<and> (100::int) < 2 ^ 63 \<and> ''f'' \<noteq> []"
    by simp
  have w: "(100::int) \<le> 2 ^ 53"
    by simp
  have d: "map (\<lambda>i. 1 + ?rng i mod 100) [0..<nat 3] = [5, 12, 19]"
    by (simp add: upt_rec eval_nat_numeral)
  have c: "concat (map (\<lambda>v. format_int v @ [NL]) [5, 12, 19]) = ''5\<newline>12\<newline>19\<newline>''"
    by (simp add: format_int_def digits_of.simps digit_char_def NL_def)
  have l: "map (\<lambda>v. format_int v @ [NL]) [5, 12, 19] = [''5\<newline>'', ''12\<newline>'', ''19\<newline>'']"
    by (simp add: format_int_def digits_of.simps digit_char_def NL_def)
  note th = random_number_list_round_trip
  note a = th [of 3 100 "''f''" ?rng Map.empty "\<lambda>s. Inl ValueError", THEN conjunct1, THEN mp, OF h]
  from a have r: "random_number_list ?rng 3 100 (Some ''f'') Map.empty
      = Inr ([5, 12, 19], Map.empty(''f'' \<mapsto> ''5\<newline>12\<newline>19\<newline>''))"
    by (simp only: d c)
  from a w have s: "read_numbers_from_file (\<lambda>s. Inl ValueError)
      (Map.empty(''f'' \<mapsto> ''5\<newline>12\<newline>19\<newline>'')) ''f'' = Inr [5, 12, 19]"
    by (simp only: d c)
  have c': "concat [''5\<newline>'', ''12\<newline>'', ''19\<newline>''] = ''5\<newline>12\<newline>19\<newline>''"
    by simp
  from a have f: "file_lines ''5\<newline>12\<newline>19\<newline>'' = [''5\<newline>'', ''12\<newline>'', ''19\<newline>'']"
    by (simp only: d l c')
  have e: "random_number_list ?rng 3 (2 ^ 63) (Some ''f'') Map.empty = Inl ValueError"
    by (rule th [of 3 "2 ^ 63" "''f''" ?rng Map.empty "\<lambda>s. Inl ValueError" "Some ''f''",
          THEN conjunct2, THEN mp]) simp
  from r s f e show ?thesis
    by simp
qed

text \<open>
  Claim C9 as stated promises a result and the round trip for every \<open>weight_range \<ge> 1\<close>.
  With \<open>weight_range = 2\<^sup>5\<^sup>3 + 1\<close> the value \<open>9007199254740993\<close> can be drawn; it is written
  as its decimal digits, \<open>float\<close> reads the line as the nearest float64
  \<open>9007199254740992.0\<close>, the assertion holds for that value, and the list read back
  differs from the list written. With \<open>weight_range = 2\<^sup>6\<^sup>3\<close> and \<open>n = 1\<close> nothing is
  returned: \<open>randint\<close> raises \<open>ValueError\<close>.
\<close>

theorem random_number_list_round_trip_counterexample:
  "(case random_number_list (\<lambda>i. 9007199254740992) 1 9007199254740993 (Some ''f'') Map.empty of
         Inl e \<Rightarrow> False
       | Inr (number_list, fs) \<Rightarrow>
           number_list = [9007199254740993]
           \<and> fs ''f'' = Some ''9007199254740993\<newline>''
           \<and> read_numbers_from_file (\<lambda>s. Inl ValueError) fs ''f'' = Inr [9007199254740992])
   \<and> random_number_list (\<lambda>i. 0) 1 (2 ^ 63) None Map.empty = Inl ValueError"
proof -
  have f: "format_int 9007199254740993 = ''9007199254740993''"
    by code_simp
  have r: "float64_of_int 9007199254740993 = Fin 9007199254740992"
    by code_simp
  have "round_half_even (of_int 9007199254740992) = 9007199254740992"
    by (rule round_half_even_of_int)
  then have k: "round_half_even 9007199254740992 = 9007199254740992"
    by simp
  have p: "py_float (\<lambda>s. Inl ValueError) ''9007199254740993\<newline>'' = Inr (Fin 9007199254740992)"
    using py_float_written_line [of "\<lambda>s. Inl ValueError" 9007199254740993]
    by (simp add: f r NL_def)
  have l: "file_lines ''9007199254740993\<newline>'' = [''9007199254740993\<newline>'']"
    by (simp add: NL_def)
  have w: "write_line [9007199254740993] 0 [] = ''9007199254740993\<newline>''"
    by (simp add: write_line_def f NL_def)
  have d: "np_random_randint (\<lambda>i. 9007199254740992) 1 9007199254740994 1
      = Inr [9007199254740993]"
    by (simp add: np_random_randint_def)
  have "read_lines (\<lambda>s. Inl ValueError) [''9007199254740993\<newline>''] [] = Inr [9007199254740992]"
    by (simp add: p k)
  then have "read_numbers_from_file (\<lambda>s. Inl ValueError)
      (Map.empty(''f'' \<mapsto> ''9007199254740993\<newline>'')) ''f'' = Inr [9007199254740992]"
    by (simp only: read_numbers_from_file_def fun_upd_same option.case l)
  moreover have "random_number_list (\<lambda>i. 9007199254740992) 1 9007199254740993 (Some ''f'') Map.empty
      = Inr ([9007199254740993], Map.empty(''f'' \<mapsto> ''9007199254740993\<newline>''))"
    by (simp add: random_number_list_def d w)
  moreover have "random_number_list (\<lambda>i. 0) 1 (2 ^ 63) None Map.empty = Inl ValueError"
    by (simp add: random_number_list_def np_random_randint_def)
  ultimately show ?thesis
    by simp
qed

end
